theory Spec2Isabelle
  imports Main "HOL-Library.AList" "HOL-Library.Word"
begin

unbundle bit_operations_syntax

section \<open>The task-dependency registry of executor/task_graph.py\<close>

text \<open>
  The module defines a payload codec (\<open>serialize\<close>, \<open>deserialize\<close>), the class
  \<open>Task\<close> and the class \<open>TaskGraph\<close>. The embedding keeps the source's names.

  \<^item> Python objects have identity: a \<open>Task\<close> defines neither \<open>__eq__\<close> nor
    \<open>__hash__\<close>, so the dictionary \<open>task_deps\<close> is keyed by the identity of the
    \<open>Task\<close> object. The model has an explicit store: a heap of \<open>Task\<close> objects,
    and a reference is the index of the object in the heap.
  \<^item> A Python \<open>dict\<close> keeps its keys in insertion order, and an assignment to a
    key that is present keeps the key's position: this is an association list with
    \<open>AList.update\<close> as the assignment and \<open>map_of\<close> as the lookup.
  \<^item> An exception is a value of the type \<open>error\<close>; a function that can raise
    returns \<open>error + 'a\<close>, with \<open>Inl\<close> for the exception.
\<close>

subsection \<open>Exceptions\<close>

text \<open>
  The specification names the failures; the source raises Python's own exceptions:
  \<open>UnknownTask\<close> is the \<open>KeyError\<close> of a dictionary lookup,
  \<open>MalformedPayload\<close> is what \<open>b64decode\<close> or \<open>pickle.loads\<close> raises on text
  that is no encoding, \<open>NotSerializable\<close> is what \<open>pickle.dumps\<close> raises, and
  \<open>Raised\<close> is any other exception, by its name.
\<close>

datatype error = UnknownTask | MalformedPayload | NotSerializable | Raised string

type_synonym byte = "8 word"
type_synonym bytes = "byte list"
type_synonym payload = string

subsection \<open>Base64, as \<open>base64.b64encode\<close> and \<open>base64.b64decode\<close> compute it\<close>

text \<open>
  The source calls the standard library; the library is not part of the repository, so
  the two functions are written out here from RFC 4648 and from the way CPython's
  \<open>binascii\<close> reads its input. \<open>b64encode\<close> turns each group of three bytes into
  four characters of the alphabet and pads a last group of one or two bytes with
  \<open>=\<close>. \<open>b64decode\<close> (with \<open>validate=False\<close>, the default the source uses)
  skips every character outside the alphabet, stops at a complete padding, and fails when
  the data characters do not fill their last group.
\<close>

definition table_b2a_base64 :: string where
  "table_b2a_base64 = ''ABCDEFGHIJKLMNOPQRSTUVWXYZabcdefghijklmnopqrstuvwxyz0123456789+/''"

definition BASE64_PAD :: byte where
  "BASE64_PAD = of_char CHR ''=''"

definition b2a :: "byte \<Rightarrow> byte" where
  "b2a n = of_char (table_b2a_base64 ! unat n)"

definition table_a2b_base64 :: "byte \<Rightarrow> byte option" where
  "table_a2b_base64 = map_of (zip (map of_char table_b2a_base64) (map of_nat [0..<64]))"

fun b2a_base64 :: "bytes \<Rightarrow> bytes" where
  "b2a_base64 (a # b # c # rest) =
     b2a (drop_bit 2 a) # b2a (push_bit 4 (a AND 3) OR drop_bit 4 b)
       # b2a (push_bit 2 (b AND 15) OR drop_bit 6 c) # b2a (c AND 63) # b2a_base64 rest"
| "b2a_base64 [a, b] =
     [b2a (drop_bit 2 a), b2a (push_bit 4 (a AND 3) OR drop_bit 4 b),
      b2a (push_bit 2 (b AND 15)), BASE64_PAD]"
| "b2a_base64 [a] = [b2a (drop_bit 2 a), b2a (push_bit 4 (a AND 3)), BASE64_PAD, BASE64_PAD]"
| "b2a_base64 [] = []"

definition b64encode :: "bytes \<Rightarrow> bytes" where
  "b64encode s = b2a_base64 s"

definition put :: "byte \<Rightarrow> error + bytes \<Rightarrow> error + bytes" where
  "put b r = (case r of Inl e \<Rightarrow> Inl e | Inr bin_data \<Rightarrow> Inr (b # bin_data))"

text \<open>
  The decoder's loop: \<open>quad_pos\<close> counts the data characters of the current group,
  \<open>leftchar\<close> holds the bits not yet written, \<open>pads\<close> counts the padding characters
  seen since the last data character.
\<close>

fun a2b_base64_loop :: "nat \<Rightarrow> byte \<Rightarrow> nat \<Rightarrow> bytes \<Rightarrow> error + bytes" where
  "a2b_base64_loop quad_pos leftchar pads [] =
     (if quad_pos \<noteq> 0 then Inl MalformedPayload else Inr [])"
| "a2b_base64_loop quad_pos leftchar pads (this_ch # ascii_data) =
     (if this_ch = BASE64_PAD then
        (if 2 \<le> quad_pos \<and> 4 \<le> quad_pos + (pads + 1) then Inr []
         else a2b_base64_loop quad_pos leftchar (if 2 \<le> quad_pos then pads + 1 else pads) ascii_data)
      else
        (case table_a2b_base64 this_ch of
           None \<Rightarrow> a2b_base64_loop quad_pos leftchar pads ascii_data
         | Some v \<Rightarrow>
             (if quad_pos = 0 then a2b_base64_loop 1 v 0 ascii_data
              else if quad_pos = 1 then
                put (push_bit 2 leftchar OR drop_bit 4 v) (a2b_base64_loop 2 (v AND 15) 0 ascii_data)
              else if quad_pos = 2 then
                put (push_bit 4 leftchar OR drop_bit 2 v) (a2b_base64_loop 3 (v AND 3) 0 ascii_data)
              else
                put (push_bit 6 leftchar OR v) (a2b_base64_loop 0 0 0 ascii_data))))"

definition a2b_base64 :: "bytes \<Rightarrow> error + bytes" where
  "a2b_base64 data = a2b_base64_loop 0 0 0 data"

text \<open>
  \<open>b64decode\<close> takes a \<open>str\<close> and first encodes it as ASCII, which fails on a
  character above 127.
\<close>

definition encode_ascii :: "string \<Rightarrow> error + bytes" where
  "encode_ascii s =
     (if list_all (\<lambda>c. (of_char c :: nat) < 128) s then Inr (map of_char s)
      else Inl MalformedPayload)"

definition b64decode :: "string \<Rightarrow> error + bytes" where
  "b64decode s = (case encode_ascii s of Inl e \<Rightarrow> Inl e | Inr data \<Rightarrow> a2b_base64 data)"

text \<open>
  \<open>bytes.decode("utf-8")\<close>, on the ASCII range only: a byte above 127 belongs to a
  multi-byte sequence, whose code point a \<open>string\<close> of 8-bit characters cannot hold, and
  the model stops there with an error. \<open>b64encode\<close> emits ASCII only (lemma
  \<open>b2a_base64_ascii\<close>), so \<open>serialize\<close> never takes that branch.
\<close>

definition decode_utf8 :: "bytes \<Rightarrow> error + string" where
  "decode_utf8 bs =
     (if list_all (\<lambda>b. b < 128) bs then Inr (map (\<lambda>b. char_of (unat b)) bs)
      else Inl (Raised ''UnicodeDecodeError''))"

subsection \<open>The payload codec\<close>

text \<open>
  \<open>pickle\<close> is the standard library's value serialization. It is a parameter of the
  model: \<open>dumps\<close> turns a value into bytes or raises, \<open>loads\<close> reads bytes or
  raises. \<open>'v\<close> is the type of the values tasks work on.
\<close>

record 'v pickle =
  dumps :: "'v \<Rightarrow> error + bytes"
  loads :: "bytes \<Rightarrow> error + 'v"

definition deserialize :: "'v pickle \<Rightarrow> payload \<Rightarrow> error + 'v" where
  "deserialize P txt = (case b64decode txt of Inl e \<Rightarrow> Inl e | Inr bs \<Rightarrow> loads P bs)"

definition serialize :: "'v pickle \<Rightarrow> 'v \<Rightarrow> error + payload" where
  "serialize P obj = (case dumps P obj of Inl e \<Rightarrow> Inl e | Inr bs \<Rightarrow> decode_utf8 (b64encode bs))"

text \<open>
  The supported domain of the value serialization: the values \<open>pickle.dumps\<close>
  accepts and \<open>pickle.loads\<close> reads back as an equal value.
\<close>

definition supported :: "'v pickle \<Rightarrow> 'v \<Rightarrow> bool" where
  "supported P v = (case dumps P v of Inl e \<Rightarrow> False | Inr bs \<Rightarrow> loads P bs = Inr v)"

subsection \<open>Dictionaries and comprehensions\<close>

text \<open>\<open>d[k]\<close>: the value under \<open>k\<close>, or \<open>KeyError\<close>.\<close>

definition getitem :: "('k \<times> 'a) list \<Rightarrow> 'k \<Rightarrow> error + 'a" where
  "getitem d k = (case map_of d k of None \<Rightarrow> Inl UnknownTask | Some v \<Rightarrow> Inr v)"

text \<open>A comprehension whose element expression can raise: the first exception ends it.\<close>

fun comprehension :: "('a \<Rightarrow> error + 'b) \<Rightarrow> 'a list \<Rightarrow> error + 'b list" where
  "comprehension f [] = Inr []"
| "comprehension f (x # xs) =
     (case f x of
        Inl e \<Rightarrow> Inl e
      | Inr y \<Rightarrow> (case comprehension f xs of Inl e \<Rightarrow> Inl e | Inr ys \<Rightarrow> Inr (y # ys)))"

subsection \<open>Tasks and the store\<close>

text \<open>
  \<open>class Task\<close>: the fields \<open>name\<close> and \<open>call\<close>; \<open>__call__\<close> forwards to
  \<open>call\<close>. The callable of a task that \<open>add_task\<close> builds takes encoded
  positional arguments and encoded keyword arguments (a \<open>dict\<close> from keyword to
  payload) and returns a payload.
\<close>

record Task =
  name :: string
  call :: "payload list \<Rightarrow> (string \<times> payload) list \<Rightarrow> error + payload"

type_synonym ref = nat
type_synonym heap = "Task list"

text \<open>\<open>Task(name, call)\<close>: a new object, whose identity no older object has.\<close>

definition new_Task ::
  "string \<Rightarrow> (payload list \<Rightarrow> (string \<times> payload) list \<Rightarrow> error + payload) \<Rightarrow> heap \<Rightarrow> ref \<times> heap" where
  "new_Task n c h = (length h, h @ [\<lparr>name = n, call = c\<rparr>])"

definition Task_call :: "heap \<Rightarrow> ref \<Rightarrow> payload list \<Rightarrow> (string \<times> payload) list \<Rightarrow> error + payload" where
  "Task_call h t args kwds = call (h ! t) args kwds"

text \<open>
  A function handed to \<open>add_task\<close>: its \<open>__name__\<close> and what it computes from
  positional and keyword arguments (a value, or an exception).
\<close>

record 'v pyfun =
  fun_name :: string
  fun_body :: "'v list \<Rightarrow> (string \<times> 'v) list \<Rightarrow> error + 'v"

subsection \<open>The registry\<close>

record TaskGraph =
  task_deps :: "(ref \<times> ref list) list"
  task_names :: "(string \<times> ref) list"

definition TaskGraph_init :: TaskGraph where
  "TaskGraph_init = \<lparr>task_deps = [], task_names = []\<rparr>"

definition execute ::
  "heap \<Rightarrow> TaskGraph \<Rightarrow> string \<Rightarrow> payload list \<Rightarrow> (string \<times> payload) list \<Rightarrow> error + payload" where
  "execute h g n args kwargs =
     (case getitem (task_names g) n of
        Inl e \<Rightarrow> Inl e
      | Inr t \<Rightarrow> Task_call h t args kwargs)"

definition dependencies :: "heap \<Rightarrow> TaskGraph \<Rightarrow> string \<Rightarrow> error + string list" where
  "dependencies h g n =
     (case getitem (task_names g) n of
        Inl e \<Rightarrow> Inl e
      | Inr t \<Rightarrow>
          (case getitem (task_deps g) t of
             Inl e \<Rightarrow> Inl e
           | Inr deps \<Rightarrow> Inr (map (\<lambda>task. name (h ! task)) deps)))"

text \<open>
  The closure \<open>_fun\<close> of \<open>add_task\<close>: decode the positional arguments, then the
  keyword arguments, call \<open>fun\<close>, encode what it returns.
\<close>

definition wrapper ::
  "'v pickle \<Rightarrow> 'v pyfun \<Rightarrow> payload list \<Rightarrow> (string \<times> payload) list \<Rightarrow> error + payload" where
  "wrapper P f args kwargs =
     (case comprehension (deserialize P) args of
        Inl e \<Rightarrow> Inl e
      | Inr args' \<Rightarrow>
          (case comprehension
                  (\<lambda>(key, val). case deserialize P val of Inl e \<Rightarrow> Inl e | Inr v \<Rightarrow> Inr (key, v))
                  kwargs of
             Inl e \<Rightarrow> Inl e
           | Inr kwargs' \<Rightarrow>
               (case fun_body f args' kwargs' of
                  Inl e \<Rightarrow> Inl e
                | Inr r \<Rightarrow> serialize P r)))"

text \<open>
  \<open>add_task(fun, *deps)\<close> returns the new task, and the model also the heap and the
  registry it leaves.
\<close>

definition add_task ::
  "'v pickle \<Rightarrow> 'v pyfun \<Rightarrow> ref list \<Rightarrow> heap \<Rightarrow> TaskGraph \<Rightarrow> ref \<times> heap \<times> TaskGraph" where
  "add_task P f deps h g =
     (let (task, h') = new_Task (fun_name f) (wrapper P f) h;
          g1 = g\<lparr>task_deps := AList.update task deps (task_deps g)\<rparr>;
          g2 = g1\<lparr>task_names := AList.update (name (h' ! task)) task (task_names g1)\<rparr>
      in (task, h', g2))"

text \<open>The decorator \<open>task(*deps)\<close>: \<open>task(*deps)(fun)\<close> is \<open>add_task(fun, *deps)\<close>.\<close>

definition task ::
  "'v pickle \<Rightarrow> ref list \<Rightarrow> 'v pyfun \<Rightarrow> heap \<Rightarrow> TaskGraph \<Rightarrow> ref \<times> heap \<times> TaskGraph" where
  "task P deps f h g = add_task P f deps h g"

text \<open>
  \<open>start_tasks\<close>: the comprehension runs over \<open>task_names.items()\<close> and keeps the
  names whose task has a falsy (empty) entry in \<open>task_deps\<close>.
\<close>

fun start_tasks_loop :: "(ref \<times> ref list) list \<Rightarrow> (string \<times> ref) list \<Rightarrow> error + string list" where
  "start_tasks_loop td [] = Inr []"
| "start_tasks_loop td ((task_name, t) # items) =
     (case getitem td t of
        Inl e \<Rightarrow> Inl e
      | Inr deps \<Rightarrow>
          (case start_tasks_loop td items of
             Inl e \<Rightarrow> Inl e
           | Inr ns \<Rightarrow> Inr (if deps = [] then task_name # ns else ns)))"

definition start_tasks :: "TaskGraph \<Rightarrow> error + string list" where
  "start_tasks g = start_tasks_loop (task_deps g) (task_names g)"

text \<open>
  \<open>end_tasks\<close>: the set \<open>source_tasks\<close> collects the names of the dependencies of
  the tasks in \<open>task_names\<close>. The source returns \<open>list(set(...) - source_tasks)\<close>,
  a list in no specified order; the model returns the set.
\<close>

fun source_tasks :: "heap \<Rightarrow> (ref \<times> ref list) list \<Rightarrow> (string \<times> ref) list \<Rightarrow> error + string set" where
  "source_tasks h td [] = Inr {}"
| "source_tasks h td ((task_name, t) # items) =
     (case getitem td t of
        Inl e \<Rightarrow> Inl e
      | Inr deps \<Rightarrow>
          (case source_tasks h td items of
             Inl e \<Rightarrow> Inl e
           | Inr s \<Rightarrow> Inr (set (map (\<lambda>dep. name (h ! dep)) deps) \<union> s)))"

definition end_tasks :: "heap \<Rightarrow> TaskGraph \<Rightarrow> error + string set" where
  "end_tasks h g =
     (case source_tasks h (task_deps g) (task_names g) of
        Inl e \<Rightarrow> Inl e
      | Inr src \<Rightarrow> Inr (set (map fst (task_names g)) - src))"

text \<open>
  \<open>summary\<close>: a dictionary comprehension over \<open>task_deps.items()\<close>, keyed by the
  task's name; a later item with the same name replaces the value of an earlier one.
\<close>

definition summary :: "heap \<Rightarrow> TaskGraph \<Rightarrow> (string \<times> string list) list" where
  "summary h g =
     foldl (\<lambda>acc (t, deps). AList.update (name (h ! t)) (map (\<lambda>dep. name (h ! dep)) deps) acc)
       [] (task_deps g)"

subsection \<open>The states a program can reach\<close>

text \<open>
  A registry starts empty (\<open>__init__\<close>) in any heap; the program may build other
  \<open>Task\<close> objects; and it may call \<open>add_task\<close> with any function and with
  dependencies that are objects of the heap.
\<close>

inductive reachable :: "'v pickle \<Rightarrow> heap \<Rightarrow> TaskGraph \<Rightarrow> bool" for P :: "'v pickle" where
  init: "reachable P h TaskGraph_init"
| alloc: "reachable P h g \<Longrightarrow> new_Task n c h = (t, h') \<Longrightarrow> reachable P h' g"
| add: "reachable P h g \<Longrightarrow> list_all (\<lambda>d. d < length h) deps
          \<Longrightarrow> add_task P f deps h g = (t, h', g') \<Longrightarrow> reachable P h' g'"

text \<open>
  The name that each key of \<open>task_deps\<close> carries, in registration order, and the
  dictionary from a name to the key registered last under it.
\<close>

definition named_keys :: "heap \<Rightarrow> (ref \<times> ref list) list \<Rightarrow> (string \<times> ref) list" where
  "named_keys h td = map (\<lambda>(t, deps). (name (h ! t), t)) td"

definition last_named :: "heap \<Rightarrow> (ref \<times> ref list) list \<Rightarrow> string \<Rightarrow> ref option" where
  "last_named h td = map_of (rev (named_keys h td))"

text \<open>Every reference of \<open>task_deps\<close> is an object of the heap.\<close>

definition valid_refs :: "heap \<Rightarrow> (ref \<times> ref list) list \<Rightarrow> bool" where
  "valid_refs h td = list_all (\<lambda>(t, deps). t < length h \<and> list_all (\<lambda>d. d < length h) deps) td"

text \<open>
  What every reachable state satisfies: the keys of each dictionary are distinct, the
  references are valid, and \<open>task_names\<close> binds each name to the key of
  \<open>task_deps\<close> registered last under that name.
\<close>

definition invariant :: "heap \<Rightarrow> TaskGraph \<Rightarrow> bool" where
  "invariant h g \<longleftrightarrow>
     distinct (map fst (task_deps g))
     \<and> distinct (map fst (task_names g))
     \<and> valid_refs h (task_deps g)
     \<and> map_of (task_names g) = last_named h (task_deps g)"

text \<open>
  The keys of \<open>task_deps\<close> that were registered after the key \<open>t\<close>, and whether
  one of them carries the name of \<open>t\<close>: a later \<open>add_task\<close> then registered a
  function of the same name.
\<close>

fun later_keys :: "ref \<Rightarrow> (ref \<times> ref list) list \<Rightarrow> ref list" where
  "later_keys t [] = []"
| "later_keys t ((k, deps) # td) = (if k = t then map fst td else later_keys t td)"

definition shadowed :: "heap \<Rightarrow> TaskGraph \<Rightarrow> ref \<Rightarrow> bool" where
  "shadowed h g t = list_ex (\<lambda>k. name (h ! k) = name (h ! t)) (later_keys t (task_deps g))"

text \<open>
  The two dictionaries in sync, in the specification's words: every key \<open>t\<close> of
  \<open>task_deps\<close> is the Task that \<open>task_names\<close> holds under the name of \<open>t\<close>.
\<close>

definition in_sync :: "heap \<Rightarrow> TaskGraph \<Rightarrow> bool" where
  "in_sync h g = list_all (\<lambda>(t, deps). map_of (task_names g) (name (h ! t)) = Some t) (task_deps g)"

text \<open>
  The queries in the specification's words, over every Task that was registered (every
  key of \<open>task_deps\<close>): the names of the Tasks whose dependency list is empty, the
  names of all Tasks, and the names that stand in some dependency list.
\<close>

definition empty_deps_names :: "heap \<Rightarrow> TaskGraph \<Rightarrow> string list" where
  "empty_deps_names h g =
     map (\<lambda>(t, deps). name (h ! t)) (filter (\<lambda>(t, deps). deps = []) (task_deps g))"

definition registered_names :: "heap \<Rightarrow> TaskGraph \<Rightarrow> string set" where
  "registered_names h g = set (map (\<lambda>(t, deps). name (h ! t)) (task_deps g))"

definition dependency_names :: "heap \<Rightarrow> TaskGraph \<Rightarrow> string set" where
  "dependency_names h g =
     set (concat (map (\<lambda>(t, deps). map (\<lambda>dep. name (h ! dep)) deps) (task_deps g)))"

subsection \<open>Example inputs\<close>

text \<open>
  A small value serialization for the examples: the values are Python integers, the
  integers from 0 to 255 are written as one byte, and no other value is supported.
\<close>

definition example_pickle :: "int pickle" where
  "example_pickle =
     \<lparr>dumps = (\<lambda>v. if 0 \<le> v \<and> v < 256 then Inr [word_of_int v] else Inl NotSerializable),
      loads = (\<lambda>bs. case bs of [b] \<Rightarrow> Inr (uint b) | _ \<Rightarrow> Inl MalformedPayload)\<rparr>"

text \<open>\<open>def add(x, y): return x + y\<close> and \<open>def square(z): return z * z\<close>.\<close>

definition add_fun :: "int pyfun" where
  "add_fun =
     \<lparr>fun_name = ''add'',
      fun_body = (\<lambda>args kwargs. case (args, kwargs) of
                    ([x, y], []) \<Rightarrow> Inr (x + y) | _ \<Rightarrow> Inl (Raised ''TypeError''))\<rparr>"

definition square_fun :: "int pyfun" where
  "square_fun =
     \<lparr>fun_name = ''square'',
      fun_body = (\<lambda>args kwargs. case (args, kwargs) of
                    ([z], []) \<Rightarrow> Inr (z * z) | _ \<Rightarrow> Inl (Raised ''TypeError''))\<rparr>"

text \<open>
  The scenario of the specification: \<open>add\<close> is registered with no dependency, then
  \<open>square\<close> depending on \<open>add\<close>. These are the heap and the registry the two
  calls of \<open>add_task\<close> leave (lemma \<open>scenario_run\<close>).
\<close>

definition scenario_heap :: heap where
  "scenario_heap =
     [\<lparr>name = ''add'', call = wrapper example_pickle add_fun\<rparr>,
      \<lparr>name = ''square'', call = wrapper example_pickle square_fun\<rparr>]"

definition scenario_graph :: TaskGraph where
  "scenario_graph = \<lparr>task_deps = [(0, []), (1, [0])], task_names = [(''add'', 0), (''square'', 1)]\<rparr>"

text \<open>
  A second scenario: \<open>add\<close> is registered, and then registered again with the first
  task as its dependency (lemma \<open>ghost_run\<close>).
\<close>

definition ghost_heap :: heap where
  "ghost_heap =
     [\<lparr>name = ''add'', call = wrapper example_pickle add_fun\<rparr>,
      \<lparr>name = ''add'', call = wrapper example_pickle add_fun\<rparr>]"

definition ghost_graph :: TaskGraph where
  "ghost_graph = \<lparr>task_deps = [(0, []), (1, [0])], task_names = [(''add'', 1)]\<rparr>"

text \<open>
  A third scenario: \<open>add\<close>, then \<open>square\<close> depending on \<open>add\<close>, then
  \<open>square\<close> again with no dependency (lemma \<open>resquare_run\<close>).
\<close>

definition resquare_heap :: heap where
  "resquare_heap =
     [\<lparr>name = ''add'', call = wrapper example_pickle add_fun\<rparr>,
      \<lparr>name = ''square'', call = wrapper example_pickle square_fun\<rparr>,
      \<lparr>name = ''square'', call = wrapper example_pickle square_fun\<rparr>]"

definition resquare_graph :: TaskGraph where
  "resquare_graph =
     \<lparr>task_deps = [(0, []), (1, [0]), (2, [])], task_names = [(''add'', 0), (''square'', 2)]\<rparr>"

text \<open>
  A fourth scenario: \<open>add\<close> and \<open>square\<close> with no dependency, then \<open>add\<close>
  again depending on \<open>square\<close> (lemma \<open>readd_run\<close>).
\<close>

definition readd_heap :: heap where
  "readd_heap =
     [\<lparr>name = ''add'', call = wrapper example_pickle add_fun\<rparr>,
      \<lparr>name = ''square'', call = wrapper example_pickle square_fun\<rparr>,
      \<lparr>name = ''add'', call = wrapper example_pickle add_fun\<rparr>]"

definition readd_graph :: TaskGraph where
  "readd_graph =
     \<lparr>task_deps = [(0, []), (1, []), (2, [1])], task_names = [(''add'', 2), (''square'', 1)]\<rparr>"

section \<open>The codec loses nothing\<close>

subsection \<open>Six-bit groups of bytes\<close>

lemma and3: "(a::byte) AND 3 = take_bit 2 a"
  by (simp add: take_bit_eq_mask mask_eq_exp_minus_1)
lemma and15: "(a::byte) AND 15 = take_bit 4 a"
  by (simp add: take_bit_eq_mask mask_eq_exp_minus_1)
lemma and63: "(a::byte) AND 63 = take_bit 6 a"
  by (simp add: take_bit_eq_mask mask_eq_exp_minus_1)

lemma s2: "2 \<le> n \<Longrightarrow> Suc (Suc (n - 2)) = n" by simp
lemma s4: "4 \<le> n \<Longrightarrow> Suc (Suc (Suc (Suc (n - 4)))) = n" by simp
lemma s6: "6 \<le> n \<Longrightarrow> Suc (Suc (Suc (Suc (Suc (Suc (n - 6)))))) = n" by simp
lemmas ss = s2 s4 s6

lemma bits1: "push_bit 2 (drop_bit 2 a) OR drop_bit 4 (push_bit 4 (a AND 3) OR drop_bit 4 b) = (a::byte)"
  unfolding and3
proof (rule bit_word_eqI)
  fix n assume "n < LENGTH(8)"
  then show "bit (push_bit 2 (drop_bit 2 a) OR drop_bit 4 (push_bit 4 (take_bit 2 a) OR drop_bit 4 b)) n = bit a n"
    by (cases "2 \<le> n") (auto simp: bit_simps ss)
qed

lemma bits2: "push_bit 4 ((push_bit 4 (a AND 3) OR drop_bit 4 b) AND 15) OR drop_bit 2 (push_bit 2 (b AND 15) OR drop_bit 6 c) = (b::byte)"
  unfolding and3 and15
proof (rule bit_word_eqI)
  fix n assume "n < LENGTH(8)"
  then show "bit (push_bit 4 (take_bit 4 (push_bit 4 (take_bit 2 a) OR drop_bit 4 b)) OR drop_bit 2 (push_bit 2 (take_bit 4 b) OR drop_bit 6 c)) n = bit b n"
    by (cases "4 \<le> n") (auto simp: bit_simps ss)
qed

lemma bits3: "push_bit 6 ((push_bit 2 (b AND 15) OR drop_bit 6 c) AND 3) OR (c AND 63) = (c::byte)"
  unfolding and3 and15 and63
proof (rule bit_word_eqI)
  fix n assume "n < LENGTH(8)"
  then show "bit (push_bit 6 (take_bit 2 (push_bit 2 (take_bit 4 b) OR drop_bit 6 c)) OR take_bit 6 c) n = bit c n"
    by (cases "6 \<le> n") (auto simp: bit_simps ss)
qed

lemma bits1': "push_bit 2 (drop_bit 2 a) OR drop_bit 4 (push_bit 4 (a AND 3)) = (a::byte)"
  unfolding and3
proof (rule bit_word_eqI)
  fix n assume "n < LENGTH(8)"
  then show "bit (push_bit 2 (drop_bit 2 a) OR drop_bit 4 (push_bit 4 (take_bit 2 a))) n = bit a n"
    by (cases "2 \<le> n") (auto simp: bit_simps ss)
qed

lemma bits2': "push_bit 4 ((push_bit 4 (a AND 3) OR drop_bit 4 b) AND 15) OR drop_bit 2 (push_bit 2 (b AND 15)) = (b::byte)"
  unfolding and3 and15
proof (rule bit_word_eqI)
  fix n assume "n < LENGTH(8)"
  then show "bit (push_bit 4 (take_bit 4 (push_bit 4 (take_bit 2 a) OR drop_bit 4 b)) OR drop_bit 2 (push_bit 2 (take_bit 4 b))) n = bit b n"
    by (cases "4 \<le> n") (auto simp: bit_simps ss)
qed

lemma lt64I: "take_bit 6 (x::byte) = x \<Longrightarrow> x < 64"
proof -
  assume h: "take_bit 6 x = x"
  have "take_bit 6 x < 2 ^ 6"
    unfolding take_bit_eq_mask by (rule and_mask_less') simp
  with h show ?thesis by simp
qed

lemma lt64_drop: "drop_bit 2 (a::byte) < 64"
proof (rule lt64I, rule bit_word_eqI)
  fix n assume "n < LENGTH(8)"
  then show "bit (take_bit 6 (drop_bit 2 a)) n = bit (drop_bit 2 a) n"
    by (auto simp: bit_simps dest: bit_imp_le_length)
qed


lemma lt64_and: "((x::byte) AND 63) < 64"
  unfolding and63 by (rule lt64I) simp

lemma lt64_c1: "(push_bit 4 ((a::byte) AND 3) OR drop_bit 4 b) < 64"
  unfolding and3
proof (rule lt64I, rule bit_word_eqI)
  fix n assume "n < LENGTH(8)"
  then show "bit (take_bit 6 (push_bit 4 (take_bit 2 a) OR drop_bit 4 b)) n = bit (push_bit 4 (take_bit 2 a) OR drop_bit 4 b) n"
    by (auto simp: bit_simps dest: bit_imp_le_length)
qed

lemma lt64_c2: "(push_bit 2 ((b::byte) AND 15) OR drop_bit 6 c) < 64"
  unfolding and15
proof (rule lt64I, rule bit_word_eqI)
  fix n assume "n < LENGTH(8)"
  then show "bit (take_bit 6 (push_bit 2 (take_bit 4 b) OR drop_bit 6 c)) n = bit (push_bit 2 (take_bit 4 b) OR drop_bit 6 c) n"
    by (auto simp: bit_simps dest: bit_imp_le_length)
qed

lemma lt64_c1': "(push_bit 4 ((a::byte) AND 3)) < 64"
  using lt64_c1 [of a 0] by simp

lemma lt64_c2': "(push_bit 2 ((b::byte) AND 15)) < 64"
  using lt64_c2 [of b 0] by simp


subsection \<open>Decoding an encoding\<close>

lemma table_all:
  "list_all (\<lambda>i. table_a2b_base64 (b2a (of_nat i)) = Some (of_nat i)
       \<and> b2a (of_nat i) \<noteq> BASE64_PAD \<and> b2a (of_nat i) < 128) [0..<64]"
  by code_simp

lemma table_inverse:
  assumes "n < 64"
  shows "table_a2b_base64 (b2a n) = Some n" and "b2a n \<noteq> BASE64_PAD" and "b2a n < 128"
proof -
  from assms have "unat n < 64"
    by (simp add: word_less_nat_alt)
  then have "unat n \<in> set [0..<64]"
    by simp
  with table_all have
    "table_a2b_base64 (b2a (of_nat (unat n))) = Some (of_nat (unat n))
       \<and> b2a (of_nat (unat n)) \<noteq> BASE64_PAD \<and> b2a (of_nat (unat n)) < 128"
    unfolding list_all_iff by blast
  then show "table_a2b_base64 (b2a n) = Some n" and "b2a n \<noteq> BASE64_PAD" and "b2a n < 128"
    by simp_all
qed

lemmas sextets = lt64_drop lt64_and lt64_c1 lt64_c2 lt64_c1' lt64_c2'

lemma loop_step0:
  "s < 64 \<Longrightarrow> a2b_base64_loop 0 l p (b2a s # rest) = a2b_base64_loop 1 s 0 rest"
  by (simp add: table_inverse)

lemma loop_step1:
  "s < 64 \<Longrightarrow> a2b_base64_loop 1 l p (b2a s # rest)
     = put (push_bit 2 l OR drop_bit 4 s) (a2b_base64_loop 2 (s AND 15) 0 rest)"
  by (simp add: table_inverse)

lemma loop_step2:
  "s < 64 \<Longrightarrow> a2b_base64_loop 2 l p (b2a s # rest)
     = put (push_bit 4 l OR drop_bit 2 s) (a2b_base64_loop 3 (s AND 3) 0 rest)"
  by (simp add: table_inverse)

lemma loop_step3:
  "s < 64 \<Longrightarrow> a2b_base64_loop 3 l p (b2a s # rest)
     = put (push_bit 6 l OR s) (a2b_base64_loop 0 0 0 rest)"
  by (simp add: table_inverse)

lemma loop_pad2: "a2b_base64_loop 2 l 0 [BASE64_PAD, BASE64_PAD] = Inr []"
  by simp

lemma loop_pad3: "a2b_base64_loop 3 l 0 [BASE64_PAD] = Inr []"
  by simp

lemma loop_quad:
  "a2b_base64_loop 0 l p
     (b2a (drop_bit 2 a) # b2a (push_bit 4 (a AND 3) OR drop_bit 4 b)
       # b2a (push_bit 2 (b AND 15) OR drop_bit 6 c) # b2a (c AND 63) # rest)
   = put a (put b (put c (a2b_base64_loop 0 0 0 rest)))"
  by (simp only: loop_step0 [OF lt64_drop] loop_step1 [OF lt64_c1] loop_step2 [OF lt64_c2]
      loop_step3 [OF lt64_and] bits1 bits2 bits3)

lemma loop_two:
  "a2b_base64_loop 0 l p
     [b2a (drop_bit 2 a), b2a (push_bit 4 (a AND 3) OR drop_bit 4 b),
      b2a (push_bit 2 (b AND 15)), BASE64_PAD] = Inr [a, b]"
  by (simp only: loop_step0 [OF lt64_drop] loop_step1 [OF lt64_c1] loop_step2 [OF lt64_c2']
      loop_pad3 bits1 bits2' put_def sum.case)

lemma loop_one:
  "a2b_base64_loop 0 l p [b2a (drop_bit 2 a), b2a (push_bit 4 (a AND 3)), BASE64_PAD, BASE64_PAD]
   = Inr [a]"
  by (simp only: loop_step0 [OF lt64_drop] loop_step1 [OF lt64_c1'] loop_pad2 bits1' put_def sum.case)

lemma a2b_b2a: "a2b_base64_loop 0 l p (b2a_base64 bs) = Inr bs"
proof (induction bs arbitrary: l p rule: b2a_base64.induct)
  case (1 a b c rest)
  then show ?case
    by (simp only: b2a_base64.simps loop_quad) (simp add: put_def)
next
  case (2 a b)
  show ?case by (simp only: b2a_base64.simps loop_two)
next
  case (3 a)
  show ?case by (simp only: b2a_base64.simps loop_one)
next
  case 4
  show ?case by simp
qed

lemma pad_ascii: "BASE64_PAD < 128"
  by (simp add: BASE64_PAD_def)

lemma b2a_base64_ascii: "list_all (\<lambda>b. b < 128) (b2a_base64 bs)"
  by (induction bs rule: b2a_base64.induct)
     (simp_all only: b2a_base64.simps list.pred_inject pad_ascii simp_thms
        table_inverse(3) [OF lt64_drop] table_inverse(3) [OF lt64_and]
        table_inverse(3) [OF lt64_c1] table_inverse(3) [OF lt64_c2]
        table_inverse(3) [OF lt64_c1'] table_inverse(3) [OF lt64_c2'])

lemma ascii_text:
  assumes "list_all (\<lambda>b. b < 128) (bs :: bytes)"
  shows "encode_ascii (map (\<lambda>b. char_of (unat b)) bs) = Inr bs"
proof -
  have small: "unat b < 128" if "b \<in> set bs" for b
    using assms that by (auto simp: list_all_iff word_less_nat_alt)
  have rt: "(of_char (char_of (unat b)) :: nat) = unat b" if "b \<in> set bs" for b
    using small [OF that] by simp
  have "list_all (\<lambda>c. (of_char c :: nat) < 128) (map (\<lambda>b. char_of (unat b)) bs)"
    using small rt by (simp add: list_all_iff)
  moreover have "(of_char (char_of (unat b)) :: byte) = b" if "b \<in> set bs" for b
  proof -
    have "(of_char (char_of (unat b)) :: byte) = of_nat (of_char (char_of (unat b)))"
      by (simp only: of_nat_of_char)
    also have "\<dots> = of_nat (unat b)"
      by (simp only: rt [OF that])
    finally show ?thesis by simp
  qed
  then have "map of_char (map (\<lambda>b. char_of (unat b)) bs) = bs"
    by (simp add: map_idI)
  ultimately show ?thesis
    by (simp add: encode_ascii_def)
qed

lemma b64_round_trip:
  "\<exists>s. decode_utf8 (b64encode bs) = Inr s \<and> b64decode s = Inr bs"
  by (simp add: decode_utf8_def b64encode_def b2a_base64_ascii b64decode_def ascii_text
      a2b_base64_def a2b_b2a)

lemma serialize_deserialize:
  assumes "supported P v"
  shows "\<exists>s. serialize P v = Inr s \<and> deserialize P s = Inr v"
proof -
  from assms obtain bs where d: "dumps P v = Inr bs" and l: "loads P bs = Inr v"
    by (auto simp: supported_def split: sum.splits)
  from b64_round_trip obtain s where
    "decode_utf8 (b64encode bs) = Inr s" and "b64decode s = Inr bs"
    by blast
  with d l show ?thesis
    by (simp add: serialize_def deserialize_def)
qed


text \<open>
  C1. Round trip of the codec: for every value \<open>v\<close> of the supported domain of the value
  serialization, \<open>serialize\<close> returns a text and \<open>deserialize\<close> of that text
  returns \<open>v\<close>. The Base64 and text layers the source puts around \<open>pickle\<close> lose
  nothing.
\<close>

theorem round_trip:
  assumes "supported P v"
  shows "\<exists>s. serialize P v = Inr s \<and> deserialize P s = Inr v"
  using assms by (rule serialize_deserialize)

theorem round_trip_witness:
  "supported example_pickle 5
   \<and> serialize example_pickle 5 = Inr ''BQ==''
   \<and> deserialize example_pickle ''BQ=='' = Inr 5"
proof -
  have s: "supported example_pickle 5"
    by (simp add: supported_def example_pickle_def)
  have e: "serialize example_pickle 5 = Inr ''BQ==''"
    by code_simp
  from round_trip [OF s] e show ?thesis
    using s by simp
qed


section \<open>Unknown names\<close>

lemma getitem_absent: "map_of d k = None \<Longrightarrow> getitem d k = Inl UnknownTask"
  by (simp add: getitem_def)


text \<open>
  C3. A name that is not a key of \<open>task_names\<close>: \<open>execute\<close> and \<open>dependencies\<close>
  both fail with \<open>UnknownTask\<close> (the \<open>KeyError\<close> of \<open>self.task_names[name]\<close>),
  whatever the arguments.
\<close>

theorem unknown_lookup:
  assumes "n \<notin> fst ` set (task_names g)"
  shows "execute h g n args kwargs = Inl UnknownTask \<and> dependencies h g n = Inl UnknownTask"
proof -
  from assms have "map_of (task_names g) n = None"
    by (simp add: map_of_eq_None_iff)
  then have "getitem (task_names g) n = Inl UnknownTask"
    by (rule getitem_absent)
  then show ?thesis
    by (simp add: execute_def dependencies_def)
qed

theorem unknown_lookup_witness:
  "''missing'' \<notin> fst ` set (task_names TaskGraph_init)
   \<and> execute [] TaskGraph_init ''missing'' [] [] = Inl UnknownTask
   \<and> dependencies [] TaskGraph_init ''missing'' = Inl UnknownTask"
proof -
  have absent: "''missing'' \<notin> fst ` set (task_names TaskGraph_init)"
    by (simp add: TaskGraph_init_def)
  from unknown_lookup [OF absent, of "[]" "[]" "[]"] absent show ?thesis
    by simp
qed

section \<open>The invariant of the registry\<close>

lemma add_task_eq:
  "add_task P f deps h g =
     (length h, h @ [\<lparr>name = fun_name f, call = wrapper P f\<rparr>],
      \<lparr>task_deps = AList.update (length h) deps (task_deps g),
       task_names = AList.update (fun_name f) (length h) (task_names g)\<rparr>)"
  by (simp add: add_task_def new_Task_def)

lemma update_fresh: "k \<notin> fst ` set al \<Longrightarrow> AList.update k v al = al @ [(k, v)]"
  by (induction al) auto

lemma named_keys_append:
  "named_keys h (td @ [(t, deps)]) = named_keys h td @ [(name (h ! t), t)]"
  by (simp add: named_keys_def)

lemma last_named_append:
  "last_named h (td @ [(t, deps)]) = (last_named h td)(name (h ! t) \<mapsto> t)"
  by (simp add: last_named_def named_keys_append fun_eq_iff)

lemma named_keys_grow:
  "valid_refs h td \<Longrightarrow> named_keys (h @ ext) td = named_keys h td"
  by (induction td) (auto simp: named_keys_def valid_refs_def nth_append)

lemma valid_refs_grow: "valid_refs h td \<Longrightarrow> valid_refs (h @ ext) td"
  by (induction td) (auto simp: valid_refs_def list_all_iff)

lemma valid_refs_fresh: "valid_refs h td \<Longrightarrow> length h \<notin> fst ` set td"
  by (auto simp: valid_refs_def list_all_iff)

lemma invariant_init: "invariant h TaskGraph_init"
  by (simp add: invariant_def TaskGraph_init_def last_named_def named_keys_def valid_refs_def)

lemma invariant_alloc:
  assumes "invariant h g"
  shows "invariant (h @ ext) g"
proof -
  from assms have v: "valid_refs h (task_deps g)"
    by (simp add: invariant_def)
  from valid_refs_grow [OF v, of ext] named_keys_grow [OF v, of ext] assms show ?thesis
    by (simp add: invariant_def last_named_def)
qed

lemma invariant_add_task:
  assumes inv: "invariant h g" and deps: "list_all (\<lambda>d. d < length h) deps"
    and add: "add_task P f deps h g = (t, h', g')"
  shows "invariant h' g'"
proof -
  let ?x = "\<lparr>name = fun_name f, call = wrapper P f\<rparr>"
  from add have t: "t = length h" and h': "h' = h @ [?x]"
    and td': "task_deps g' = AList.update (length h) deps (task_deps g)"
    and tn': "task_names g' = AList.update (fun_name f) (length h) (task_names g)"
    by (auto simp: add_task_eq)
  from inv have v: "valid_refs h (task_deps g)"
    by (simp add: invariant_def)
  have fresh: "length h \<notin> fst ` set (task_deps g)"
    by (rule valid_refs_fresh [OF v])
  have td: "task_deps g' = task_deps g @ [(length h, deps)]"
    by (simp add: td' update_fresh [OF fresh])
  have d1: "distinct (map fst (task_deps g'))"
    using inv fresh by (simp add: td invariant_def)
  have d2: "distinct (map fst (task_names g'))"
    using inv by (simp add: tn' invariant_def distinct_update)
  have v': "valid_refs h' (task_deps g')"
    using valid_refs_grow [OF v, of "[?x]"] deps
    by (auto simp: td h' valid_refs_def list_all_iff less_Suc_eq)
  have a: "last_named h' (task_deps g') = (last_named h' (task_deps g))(name (h' ! length h) \<mapsto> length h)"
    by (simp only: td last_named_append)
  have b: "last_named h' (task_deps g) = last_named h (task_deps g)"
    by (simp add: last_named_def h' named_keys_grow [OF v])
  have c: "name (h' ! length h) = fun_name f"
    by (simp add: h')
  have d: "map_of (task_names g) = last_named h (task_deps g)"
    using inv by (simp add: invariant_def)
  have m: "map_of (task_names g') = last_named h' (task_deps g')"
    by (simp only: a b c d tn' update_conv')
  from d1 d2 v' m show ?thesis
    by (simp add: invariant_def)
qed

lemma reachable_invariant: "reachable P h g \<Longrightarrow> invariant h g"
proof (induction rule: reachable.induct)
  case (init h)
  show ?case by (rule invariant_init)
next
  case (alloc h g n c t h')
  then show ?case by (auto simp: new_Task_def intro: invariant_alloc)
next
  case (add h g deps f t h' g')
  then show ?case by (blast intro: invariant_add_task)
qed

section \<open>The example states are reachable\<close>

lemma scenario_run:
  "add_task example_pickle add_fun [] [] TaskGraph_init
     = (0, [\<lparr>name = ''add'', call = wrapper example_pickle add_fun\<rparr>],
        \<lparr>task_deps = [(0, [])], task_names = [(''add'', 0)]\<rparr>)"
  "add_task example_pickle square_fun [0] [\<lparr>name = ''add'', call = wrapper example_pickle add_fun\<rparr>]
       \<lparr>task_deps = [(0, [])], task_names = [(''add'', 0)]\<rparr>
     = (1, scenario_heap, scenario_graph)"
  by (simp_all add: add_task_eq TaskGraph_init_def scenario_heap_def scenario_graph_def
      add_fun_def square_fun_def)

lemma ghost_run:
  "add_task example_pickle add_fun [0] [\<lparr>name = ''add'', call = wrapper example_pickle add_fun\<rparr>]
       \<lparr>task_deps = [(0, [])], task_names = [(''add'', 0)]\<rparr>
     = (1, ghost_heap, ghost_graph)"
  by (simp add: add_task_eq ghost_heap_def ghost_graph_def add_fun_def)

lemma reachable_one:
  "reachable example_pickle [\<lparr>name = ''add'', call = wrapper example_pickle add_fun\<rparr>]
     \<lparr>task_deps = [(0, [])], task_names = [(''add'', 0)]\<rparr>"
  by (rule reachable.add [OF reachable.init _ scenario_run(1)]) simp

lemma reachable_scenario: "reachable example_pickle scenario_heap scenario_graph"
  by (rule reachable.add [OF reachable_one _ scenario_run(2)]) simp

lemma reachable_ghost: "reachable example_pickle ghost_heap ghost_graph"
  by (rule reachable.add [OF reachable_one _ ghost_run]) simp

lemma resquare_run:
  "add_task example_pickle square_fun [] scenario_heap scenario_graph
     = (2, resquare_heap, resquare_graph)"
  by (simp add: add_task_eq scenario_heap_def scenario_graph_def resquare_heap_def
      resquare_graph_def square_fun_def)

lemma reachable_resquare: "reachable example_pickle resquare_heap resquare_graph"
  by (rule reachable.add [OF reachable_scenario _ resquare_run]) simp

lemma readd_run:
  "add_task example_pickle square_fun [] [\<lparr>name = ''add'', call = wrapper example_pickle add_fun\<rparr>]
       \<lparr>task_deps = [(0, [])], task_names = [(''add'', 0)]\<rparr>
     = (1, scenario_heap, \<lparr>task_deps = [(0, []), (1, [])], task_names = [(''add'', 0), (''square'', 1)]\<rparr>)"
  "add_task example_pickle add_fun [1] scenario_heap
       \<lparr>task_deps = [(0, []), (1, [])], task_names = [(''add'', 0), (''square'', 1)]\<rparr>
     = (2, readd_heap, readd_graph)"
  by (simp_all add: add_task_eq scenario_heap_def readd_heap_def readd_graph_def
      add_fun_def square_fun_def)

lemma reachable_readd: "reachable example_pickle readd_heap readd_graph"
proof -
  have "reachable example_pickle scenario_heap
          \<lparr>task_deps = [(0, []), (1, [])], task_names = [(''add'', 0), (''square'', 1)]\<rparr>"
    by (rule reachable.add [OF reachable_one _ readd_run(1)]) simp
  then show ?thesis
    by (rule reachable.add [OF _ _ readd_run(2)]) (simp add: scenario_heap_def)
qed

section \<open>The queries\<close>

lemma last_named_SomeD:
  assumes "last_named h td n = Some t"
  shows "t \<in> fst ` set td \<and> name (h ! t) = n"
proof -
  from assms have "(n, t) \<in> set (named_keys h td)"
    by (auto simp: last_named_def dest: map_of_SomeD)
  then show ?thesis
    by (force simp: named_keys_def image_iff)
qed

lemma bound_task:
  assumes "invariant h g" and "map_of (task_names g) n = Some t"
  shows "t \<in> fst ` set (task_deps g)" and "name (h ! t) = n" and "t < length h"
proof -
  from assms have l: "last_named h (task_deps g) n = Some t"
    by (simp add: invariant_def)
  from last_named_SomeD [OF l] show k: "t \<in> fst ` set (task_deps g)" and "name (h ! t) = n"
    by simp_all
  from assms(1) have "valid_refs h (task_deps g)"
    by (simp add: invariant_def)
  with k show "t < length h"
    by (auto simp: valid_refs_def list_all_iff)
qed

lemma bound_task_deps:
  assumes "invariant h g" and "map_of (task_names g) n = Some t"
  shows "\<exists>deps. map_of (task_deps g) t = Some deps"
proof -
  from bound_task(1) [OF assms] have "map_of (task_deps g) t \<noteq> None"
    by (simp add: map_of_eq_None_iff)
  then show ?thesis by blast
qed

text \<open>The comprehension of \<open>start_tasks\<close>, when every task it meets is a key of \<open>task_deps\<close>.\<close>

lemma start_tasks_loop_filter:
  assumes "\<And>n t. (n, t) \<in> set items \<Longrightarrow> map_of td t \<noteq> None"
  shows "start_tasks_loop td items
           = Inr (map fst (filter (\<lambda>(n, t). map_of td t = Some []) items))"
  using assms
proof (induction items)
  case Nil
  show ?case by simp
next
  case (Cons item items)
  obtain n t where item: "item = (n, t)" by (cases item)
  from Cons.prems [of n t] obtain deps where d: "map_of td t = Some deps"
    by (auto simp: item)
  have "start_tasks_loop td items
           = Inr (map fst (filter (\<lambda>(n, t). map_of td t = Some []) items))"
  proof (rule Cons.IH)
    fix n' t' assume "(n', t') \<in> set items"
    then show "map_of td t' \<noteq> None"
      using Cons.prems [of n' t'] by simp
  qed
  then show ?case
    by (simp add: item d getitem_def)
qed

lemma source_tasks_union:
  assumes "\<And>n t. (n, t) \<in> set items \<Longrightarrow> map_of td t \<noteq> None"
  shows "source_tasks h td items
           = Inr {name (h ! d) | d n t deps. (n, t) \<in> set items \<and> map_of td t = Some deps \<and> d \<in> set deps}"
  using assms
proof (induction items)
  case Nil
  show ?case by simp
next
  case (Cons item items)
  obtain n t where item: "item = (n, t)" by (cases item)
  from Cons.prems [of n t] obtain deps where d: "map_of td t = Some deps"
    by (auto simp: item)
  have "source_tasks h td items
           = Inr {name (h ! d) | d n t deps. (n, t) \<in> set items \<and> map_of td t = Some deps \<and> d \<in> set deps}"
  proof (rule Cons.IH)
    fix n' t' assume "(n', t') \<in> set items"
    then show "map_of td t' \<noteq> None"
      using Cons.prems [of n' t'] by simp
  qed
  then show ?case
    using d by (auto simp: item getitem_def)
qed

lemma names_items:
  assumes "invariant h g"
  shows "(n, t) \<in> set (task_names g) \<longleftrightarrow> map_of (task_names g) n = Some t"
proof -
  from assms have "distinct (map fst (task_names g))"
    by (simp add: invariant_def)
  then show ?thesis by auto
qed

lemma start_tasks_eq:
  assumes inv: "invariant h g"
  shows "start_tasks g
           = Inr (map fst (filter (\<lambda>(n, t). map_of (task_deps g) t = Some []) (task_names g)))"
proof -
  have keys: "map_of (task_deps g) t \<noteq> None" if "(n, t) \<in> set (task_names g)" for n t
    using bound_task_deps [OF inv, of n t] that by (auto simp: names_items [OF inv])
  show ?thesis
    unfolding start_tasks_def by (rule start_tasks_loop_filter) (rule keys)
qed

lemma end_tasks_eq:
  assumes inv: "invariant h g"
  shows "end_tasks h g
           = Inr (fst ` set (task_names g)
                  - {name (h ! d) | d n t deps.
                       map_of (task_names g) n = Some t \<and> map_of (task_deps g) t = Some deps
                       \<and> d \<in> set deps})"
proof -
  have keys: "map_of (task_deps g) t \<noteq> None" if "(n, t) \<in> set (task_names g)" for n t
    using bound_task_deps [OF inv, of n t] that by (auto simp: names_items [OF inv])
  have "source_tasks h (task_deps g) (task_names g)
          = Inr {name (h ! d) | d n t deps.
                   (n, t) \<in> set (task_names g) \<and> map_of (task_deps g) t = Some deps \<and> d \<in> set deps}"
    by (rule source_tasks_union) (rule keys)
  then show ?thesis
    by (simp add: end_tasks_def names_items [OF inv])
qed

text \<open>
  \<open>start_tasks\<close> by the name map: it returns, each once, the names whose Task in
  \<open>task_names\<close> has an empty dependency list.
\<close>

lemma start_tasks_by_name:
  assumes "reachable P h g"
  shows "\<exists>ns. start_tasks g = Inr ns \<and> distinct ns
           \<and> set ns = {n. \<exists>t. map_of (task_names g) n = Some t \<and> map_of (task_deps g) t = Some []}"
proof -
  have inv: "invariant h g"
    by (rule reachable_invariant [OF assms])
  let ?ns = "map fst (filter (\<lambda>(n, t). map_of (task_deps g) t = Some []) (task_names g))"
  have run: "start_tasks g = Inr ?ns"
    by (rule start_tasks_eq [OF inv])
  from inv have "distinct (map fst (task_names g))"
    by (simp add: invariant_def)
  then have dist: "distinct ?ns"
    by (rule distinct_map_filter)
  have mem: "set ?ns = {n. \<exists>t. map_of (task_names g) n = Some t \<and> map_of (task_deps g) t = Some []}"
    by (auto simp: names_items [OF inv] image_iff)
  from run dist mem show ?thesis by blast
qed

text \<open>The comprehension of \<open>summary\<close>: a later item replaces an earlier one of the same name.\<close>

lemma foldl_update_map_of:
  "map_of (foldl (\<lambda>acc (t, deps). AList.update (k t) (v deps) acc) acc0 td)
     = map_of acc0 ++ map_of (rev (map (\<lambda>(t, deps). (k t, v deps)) td))"
proof (induction td arbitrary: acc0)
  case Nil
  show ?case by simp
next
  case (Cons item td)
  obtain t deps where item: "item = (t, deps)" by (cases item)
  show ?case
    by (simp add: item Cons.IH update_conv' map_add_upd_left fun_eq_iff map_add_def
        split: option.splits)
qed

lemma foldl_update_distinct:
  "distinct (map fst acc0)
     \<Longrightarrow> distinct (map fst (foldl (\<lambda>acc (t, deps). AList.update (k t) (v deps) acc) acc0 td))"
proof (induction td arbitrary: acc0)
  case Nil
  then show ?case by simp
next
  case (Cons item td)
  obtain t deps where item: "item = (t, deps)" by (cases item)
  from Cons.prems show ?case
    by (simp add: item Cons.IH distinct_update)
qed

lemma last_entry:
  assumes "distinct (map fst td)"
  shows "map_of (rev (map (\<lambda>(t, deps). (name (h ! t), v deps)) td)) n
           = (case last_named h td n of None \<Rightarrow> None
              | Some t \<Rightarrow> map_option v (map_of td t))"
  using assms
proof (induction td rule: rev_induct)
  case Nil
  show ?case by (simp add: last_named_def named_keys_def)
next
  case (snoc item td)
  obtain t deps where item: "item = (t, deps)" by (cases item)
  from snoc.prems have fresh: "t \<notin> fst ` set td" and dist: "distinct (map fst td)"
    by (simp_all add: item)
  show ?case
  proof (cases "n = name (h ! t)")
    case True
    from fresh have "map_of td t = None"
      by (simp add: map_of_eq_None_iff)
    with True show ?thesis
      by (simp add: item last_named_append map_add_def)
  next
    case False
    have old: "([t \<mapsto> deps] ++ map_of td) t' = map_of td t'" if "last_named h td n = Some t'" for t'
    proof -
      from last_named_SomeD [OF that] have "t' \<in> fst ` set td" by simp
      then have "map_of td t' \<noteq> None"
        by (simp add: map_of_eq_None_iff)
      then obtain d where "map_of td t' = Some d"
        by blast
      then show ?thesis by (simp add: map_add_def)
    qed
    from False show ?thesis
      by (auto simp: item last_named_append snoc.IH [OF dist] old split: option.splits)
  qed
qed

text \<open>
  \<open>summary\<close> by the name map: one entry for each name of \<open>task_names\<close>, and the
  entry of a name is what \<open>dependencies\<close> returns for it.
\<close>

lemma summary_by_name:
  assumes "reachable P h g"
  shows "distinct (map fst (summary h g))
         \<and> fst ` set (summary h g) = fst ` set (task_names g)
         \<and> (\<forall>n. map_of (summary h g) n
                  = (case dependencies h g n of Inl e \<Rightarrow> None | Inr ds \<Rightarrow> Some ds))"
proof -
  have inv: "invariant h g"
    by (rule reachable_invariant [OF assms])
  have dist: "distinct (map fst (summary h g))"
    unfolding summary_def by (rule foldl_update_distinct) simp
  have look: "map_of (summary h g) n
                = (case dependencies h g n of Inl e \<Rightarrow> None | Inr ds \<Rightarrow> Some ds)" for n
  proof -
    from inv have d: "distinct (map fst (task_deps g))"
      and m: "last_named h (task_deps g) = map_of (task_names g)"
      by (simp_all add: invariant_def)
    have "map_of (summary h g) n
            = map_of (rev (map (\<lambda>(t, deps). (name (h ! t), map (\<lambda>dep. name (h ! dep)) deps))
                 (task_deps g))) n"
      by (simp add: summary_def foldl_update_map_of)
    also have "\<dots> = (case map_of (task_names g) n of None \<Rightarrow> None
                      | Some t \<Rightarrow> map_option (map (\<lambda>dep. name (h ! dep))) (map_of (task_deps g) t))"
      by (simp only: last_entry [OF d] m)
    also have "\<dots> = (case dependencies h g n of Inl e \<Rightarrow> None | Inr ds \<Rightarrow> Some ds)"
      using bound_task_deps [OF inv, of n]
      by (auto simp: dependencies_def getitem_def split: option.splits)
    finally show ?thesis .
  qed
  have "fst ` set (summary h g) = fst ` set (task_names g)"
  proof -
    have "n \<in> fst ` set (summary h g) \<longleftrightarrow> n \<in> fst ` set (task_names g)" for n
    proof -
      have "n \<in> fst ` set (summary h g) \<longleftrightarrow> map_of (summary h g) n \<noteq> None"
        by (simp add: map_of_eq_None_iff)
      also have "\<dots> \<longleftrightarrow> map_of (task_names g) n \<noteq> None"
        using bound_task_deps [OF inv, of n]
        by (auto simp: look dependencies_def getitem_def split: option.splits)
      also have "\<dots> \<longleftrightarrow> n \<in> fst ` set (task_names g)"
        by (simp add: map_of_eq_None_iff)
      finally show ?thesis .
    qed
    then show ?thesis by blast
  qed
  with dist look show ?thesis by blast
qed

section \<open>Registration\<close>

lemma dependencies_add_task:
  assumes add: "add_task P f deps h g = (t, h', g')"
  shows "dependencies h' g' (fun_name f) = Inr (map (\<lambda>d. name (h' ! d)) deps)"
proof -
  from add have "task_deps g' = AList.update t deps (task_deps g)"
    and "task_names g' = AList.update (fun_name f) t (task_names g)"
    by (auto simp: add_task_eq)
  then show ?thesis
    by (simp add: dependencies_def getitem_def update_conv')
qed

lemma old_names:
  assumes "list_all (\<lambda>d. d < length h) deps"
  shows "map (\<lambda>d. name ((h @ ext) ! d)) deps = map (\<lambda>d. name (h ! d)) deps"
  using assms by (induction deps) (simp_all add: nth_append)

text \<open>
  C4. After \<open>add_task(fn, *deps)\<close>, \<open>dependencies(fn.__name__)\<close> returns the names
  of the Tasks passed as \<open>deps\<close>, in the order they were passed. The Task that
  \<open>add_task\<close> returns is an object of the store, carries the function's name, and can be
  passed as a dependency to a further \<open>add_task\<close>: the further call succeeds and
  \<open>dependencies\<close> of the further function lists the name of the returned Task at the
  position where it was passed.
\<close>

theorem registration:
  assumes add: "add_task P f deps h g = (t, h', g')"
    and deps: "list_all (\<lambda>d. d < length h) deps"
  shows "dependencies h' g' (fun_name f) = Inr (map (\<lambda>d. name (h ! d)) deps)
         \<and> t < length h' \<and> name (h' ! t) = fun_name f
         \<and> (\<forall>f2 ds t2 h2 g2.
              list_all (\<lambda>d. d < length h') ds \<longrightarrow> add_task P f2 (t # ds) h' g' = (t2, h2, g2)
              \<longrightarrow> dependencies h2 g2 (fun_name f2)
                    = Inr (fun_name f # map (\<lambda>d. name (h' ! d)) ds))"
proof -
  from add have t: "t = length h" and h': "h' = h @ [\<lparr>name = fun_name f, call = wrapper P f\<rparr>]"
    by (auto simp: add_task_eq)
  have a: "dependencies h' g' (fun_name f) = Inr (map (\<lambda>d. name (h ! d)) deps)"
    using dependencies_add_task [OF add] old_names [OF deps] by (simp add: h')
  have b: "t < length h'" and c: "name (h' ! t) = fun_name f"
    by (simp_all add: t h')
  have d: "dependencies h2 g2 (fun_name f2) = Inr (fun_name f # map (\<lambda>d. name (h' ! d)) ds)"
    if v: "list_all (\<lambda>d. d < length h') ds" and a2: "add_task P f2 (t # ds) h' g' = (t2, h2, g2)"
    for f2 ds t2 h2 g2
  proof -
    from a2 obtain x where h2: "h2 = h' @ [x]"
      by (auto simp: add_task_eq)
    from v b have "list_all (\<lambda>d. d < length h') (t # ds)"
      by simp
    from old_names [OF this, of "[x]"] dependencies_add_task [OF a2] c show ?thesis
      by (simp add: h2)
  qed
  from a b c d show ?thesis by blast
qed

theorem registration_witness:
  "add_task example_pickle add_fun [] [] TaskGraph_init
     = (0, [\<lparr>name = ''add'', call = wrapper example_pickle add_fun\<rparr>],
        \<lparr>task_deps = [(0, [])], task_names = [(''add'', 0)]\<rparr>)
   \<and> dependencies [\<lparr>name = ''add'', call = wrapper example_pickle add_fun\<rparr>]
        \<lparr>task_deps = [(0, [])], task_names = [(''add'', 0)]\<rparr> ''add'' = Inr []
   \<and> add_task example_pickle square_fun [0] [\<lparr>name = ''add'', call = wrapper example_pickle add_fun\<rparr>]
        \<lparr>task_deps = [(0, [])], task_names = [(''add'', 0)]\<rparr> = (1, scenario_heap, scenario_graph)
   \<and> dependencies scenario_heap scenario_graph ''square'' = Inr [''add'']"
proof -
  let ?h = "[\<lparr>name = ''add'', call = wrapper example_pickle add_fun\<rparr>]"
  let ?g = "\<lparr>task_deps = [(0, [])], task_names = [(''add'', 0)]\<rparr>"
  have v: "list_all (\<lambda>d. d < length ([] :: heap)) []"
    by simp
  note r = registration [OF scenario_run(1) v]
  from r have first: "dependencies ?h ?g ''add'' = Inr []"
    by (simp add: add_fun_def)
  from r have rest:
    "list_all (\<lambda>d. d < length ?h) []
       \<longrightarrow> add_task example_pickle square_fun [0] ?h ?g = (1, scenario_heap, scenario_graph)
       \<longrightarrow> dependencies scenario_heap scenario_graph (fun_name square_fun)
            = Inr (fun_name add_fun # map (\<lambda>d. name (?h ! d)) [])"
    by blast
  with scenario_run(2) have second:
    "dependencies scenario_heap scenario_graph ''square'' = Inr [''add'']"
    by (simp add: add_fun_def square_fun_def)
  from first second scenario_run show ?thesis
    by simp
qed

section \<open>Registering a name again\<close>

lemma unbound_elsewhere:
  assumes inv: "invariant h g" and old: "map_of (task_names g) n = Some t"
    and other: "m \<noteq> n"
  shows "map_of (task_names g) m \<noteq> Some t"
proof
  assume "map_of (task_names g) m = Some t"
  from bound_task(2) [OF inv this] bound_task(2) [OF inv old] other show False
    by simp
qed

text \<open>
  C8. When \<open>add_task\<close> registers a function whose name is already bound in
  \<open>task_names\<close>, the name is bound to the new Task afterwards (the last registration
  wins) and no other name changes; \<open>task_deps\<close> keeps every old entry, the old Task's
  key and dependency list among them, and gains one entry for the new Task; the old Task is
  unchanged in the store and still carries the name, but no name of \<open>task_names\<close>
  leads to it any more.
\<close>

theorem reregistration:
  assumes reach: "reachable P h g"
    and old: "map_of (task_names g) (fun_name f) = Some t_old"
    and deps: "list_all (\<lambda>d. d < length h) deps"
    and add: "add_task P f deps h g = (t, h', g')"
  shows "map_of (task_names g') (fun_name f) = Some t \<and> t \<noteq> t_old
         \<and> (\<forall>n. n \<noteq> fun_name f \<longrightarrow> map_of (task_names g') n = map_of (task_names g) n)
         \<and> task_deps g' = task_deps g @ [(t, deps)]
         \<and> map_of (task_deps g') t_old = map_of (task_deps g) t_old
         \<and> map_of (task_deps g') t_old \<noteq> None
         \<and> h' ! t_old = h ! t_old \<and> name (h' ! t_old) = fun_name f
         \<and> (\<forall>n. map_of (task_names g') n \<noteq> Some t_old)"
proof -
  have inv: "invariant h g"
    by (rule reachable_invariant [OF reach])
  from add have t: "t = length h" and h': "h' = h @ [\<lparr>name = fun_name f, call = wrapper P f\<rparr>]"
    and td': "task_deps g' = AList.update (length h) deps (task_deps g)"
    and tn': "task_names g' = AList.update (fun_name f) (length h) (task_names g)"
    by (auto simp: add_task_eq)
  note b = bound_task [OF inv old]
  from inv have "valid_refs h (task_deps g)"
    by (simp add: invariant_def)
  then have fresh: "length h \<notin> fst ` set (task_deps g)"
    by (rule valid_refs_fresh)
  have td: "task_deps g' = task_deps g @ [(t, deps)]"
    by (simp add: td' t update_fresh [OF fresh])
  have new: "map_of (task_names g') (fun_name f) = Some t"
    by (simp add: tn' t update_conv')
  from b(3) have ne: "t \<noteq> t_old"
    by (simp add: t)
  have others: "map_of (task_names g') n = map_of (task_names g) n" if "n \<noteq> fun_name f" for n
    using that by (simp add: tn' update_conv')
  from ne have same: "map_of (task_deps g') t_old = map_of (task_deps g) t_old"
    by (simp add: td' t update_conv')
  from b(1) have key: "map_of (task_deps g') t_old \<noteq> None"
    by (simp add: same map_of_eq_None_iff)
  from b(3) have obj: "h' ! t_old = h ! t_old"
    by (simp add: h' nth_append)
  from b(2) have nm: "name (h' ! t_old) = fun_name f"
    by (simp add: obj)
  have ghost: "map_of (task_names g') n \<noteq> Some t_old" for n
  proof (cases "n = fun_name f")
    case True
    with new ne show ?thesis by simp
  next
    case False
    from unbound_elsewhere [OF inv old False] others [OF False] show ?thesis
      by simp
  qed
  from new ne others td same key obj nm ghost show ?thesis
    by blast
qed

theorem reregistration_witness:
  "reachable example_pickle [\<lparr>name = ''add'', call = wrapper example_pickle add_fun\<rparr>]
     \<lparr>task_deps = [(0, [])], task_names = [(''add'', 0)]\<rparr>
   \<and> add_task example_pickle add_fun [0] [\<lparr>name = ''add'', call = wrapper example_pickle add_fun\<rparr>]
        \<lparr>task_deps = [(0, [])], task_names = [(''add'', 0)]\<rparr> = (1, ghost_heap, ghost_graph)
   \<and> map_of (task_names ghost_graph) ''add'' = Some 1
   \<and> map_of (task_deps ghost_graph) 0 = Some []
   \<and> name (ghost_heap ! 0) = ''add''
   \<and> task_deps ghost_graph = [(0, []), (1, [0])]"
proof -
  let ?h = "[\<lparr>name = ''add'', call = wrapper example_pickle add_fun\<rparr>]"
  let ?g = "\<lparr>task_deps = [(0, [])], task_names = [(''add'', 0)]\<rparr>"
  have old: "map_of (task_names ?g) (fun_name add_fun) = Some 0"
    by (simp add: add_fun_def)
  have v: "list_all (\<lambda>d. d < length ?h) [0]"
    by simp
  from reregistration [OF reachable_one old v ghost_run] reachable_one ghost_run show ?thesis
    by (simp add: add_fun_def)
qed

section \<open>A task alone\<close>

text \<open>
  A name whose Task in \<open>task_names\<close> has no dependency, and which stands in the
  dependency list of no other Task of \<open>task_names\<close>.
\<close>

lemma isolated_by_name:
  assumes reach: "reachable P h g"
    and bound: "map_of (task_names g) n = Some t"
    and nodeps: "map_of (task_deps g) t = Some []"
    and unused: "\<And>n' t' deps. map_of (task_names g) n' = Some t' \<Longrightarrow> t' \<noteq> t
                   \<Longrightarrow> map_of (task_deps g) t' = Some deps \<Longrightarrow> n \<notin> (\<lambda>d. name (h ! d)) ` set deps"
  shows "\<exists>ns s. start_tasks g = Inr ns \<and> end_tasks h g = Inr s \<and> n \<in> set ns \<and> n \<in> s"
proof -
  have inv: "invariant h g"
    by (rule reachable_invariant [OF reach])
  let ?ns = "map fst (filter (\<lambda>(n, t). map_of (task_deps g) t = Some []) (task_names g))"
  let ?s = "fst ` set (task_names g)
              - {name (h ! d) | d n t deps.
                   map_of (task_names g) n = Some t \<and> map_of (task_deps g) t = Some deps
                   \<and> d \<in> set deps}"
  from bound have item: "(n, t) \<in> set (task_names g)"
    by (rule map_of_SomeD)
  with nodeps have a: "n \<in> set ?ns"
    by (force simp: image_iff)
  have "n \<notin> {name (h ! d) | d n t deps.
                   map_of (task_names g) n = Some t \<and> map_of (task_deps g) t = Some deps
                   \<and> d \<in> set deps}"
  proof
    assume "n \<in> {name (h ! d) | d n t deps.
                   map_of (task_names g) n = Some t \<and> map_of (task_deps g) t = Some deps
                   \<and> d \<in> set deps}"
    then obtain d n' t' deps where n: "n = name (h ! d)"
      and b': "map_of (task_names g) n' = Some t'" and d': "map_of (task_deps g) t' = Some deps"
      and m: "d \<in> set deps"
      by blast
    show False
    proof (cases "t' = t")
      case True
      with d' nodeps m show False by simp
    next
      case False
      from unused [OF b' False d'] n m show False by blast
    qed
  qed
  with item have b: "n \<in> ?s"
    by (force simp: image_iff)
  from start_tasks_eq [OF inv] end_tasks_eq [OF inv] a b show ?thesis
    by blast
qed

section \<open>The two dictionaries\<close>

lemma later_keys_append_in:
  "t \<in> fst ` set xs \<Longrightarrow> later_keys t (xs @ ys) = later_keys t xs @ map fst ys"
proof (induction xs)
  case Nil
  then show ?case by simp
next
  case (Cons x xs)
  obtain k d where x: "x = (k, d)"
    by (cases x)
  show ?case
  proof (cases "k = t")
    case True
    then show ?thesis by (simp add: x)
  next
    case False
    with Cons.prems have "t \<in> fst ` set xs"
      by (auto simp: x)
    from Cons.IH [OF this] False show ?thesis
      by (simp add: x)
  qed
qed

lemma later_keys_append_out:
  "t \<notin> fst ` set xs \<Longrightarrow> later_keys t (xs @ ys) = later_keys t ys"
  by (induction xs) auto

lemma last_named_key:
  assumes "t \<in> fst ` set td"
  shows "\<exists>t'. last_named h td (name (h ! t)) = Some t'"
proof -
  from assms have "name (h ! t) \<in> fst ` set (rev (named_keys h td))"
    by (force simp: named_keys_def image_iff)
  then have "map_of (rev (named_keys h td)) (name (h ! t)) \<noteq> None"
    by (simp only: map_of_eq_None_iff not_not)
  then show ?thesis
    by (auto simp: last_named_def)
qed

lemma last_named_self:
  assumes "distinct (map fst td)" and "t \<in> fst ` set td"
  shows "last_named h td (name (h ! t)) = Some t
         \<longleftrightarrow> \<not> list_ex (\<lambda>k. name (h ! k) = name (h ! t)) (later_keys t td)"
  using assms
proof (induction td rule: rev_induct)
  case Nil
  then show ?case by simp
next
  case (snoc x xs)
  obtain k d where x: "x = (k, d)"
    by (cases x)
  from snoc.prems(1) have fresh: "k \<notin> fst ` set xs" and dist: "distinct (map fst xs)"
    by (simp_all add: x)
  show ?case
  proof (cases "t = k")
    case True
    with fresh have "later_keys t (xs @ [(k, d)]) = []"
      by (simp add: later_keys_append_out)
    then show ?thesis
      by (simp add: x last_named_append True)
  next
    case False
    with snoc.prems(2) have mem: "t \<in> fst ` set xs"
      by (auto simp: x)
    have l: "later_keys t (xs @ [(k, d)]) = later_keys t xs @ [k]"
      by (simp add: later_keys_append_in [OF mem])
    show ?thesis
    proof (cases "name (h ! k) = name (h ! t)")
      case True
      with False show ?thesis
        by (simp add: l x last_named_append)
    next
      case ne: False
      from snoc.IH [OF dist mem] ne show ?thesis
        by (simp add: l x last_named_append)
    qed
  qed
qed

text \<open>
  The registry after \<open>add\<close> was registered twice can be reached, and it is not in sync:
  the Task registered first is a key of \<open>task_deps\<close> and carries the name \<open>add\<close>,
  and \<open>task_names\<close> holds the Task registered second under that name.
\<close>

theorem out_of_sync:
  "reachable example_pickle ghost_heap ghost_graph
   \<and> map_of (task_deps ghost_graph) 0 = Some []
   \<and> name (ghost_heap ! 0) = ''add''
   \<and> map_of (task_names ghost_graph) ''add'' = Some 1
   \<and> \<not> in_sync ghost_heap ghost_graph"
  using reachable_ghost by (simp add: in_sync_def ghost_heap_def ghost_graph_def)

text \<open>
  C7, amended. In every state the registry can reach, the keys of \<open>task_names\<close> are
  distinct, and for every key \<open>t\<close> of \<open>task_deps\<close> the dictionary
  \<open>task_names\<close> has an entry under the name of \<open>t\<close>: a key of \<open>task_deps\<close>
  that carries the same name. It is \<open>t\<close> itself exactly when no \<open>add_task\<close>
  after the one that built \<open>t\<close> registered a function of the same name.
\<close>

theorem names_follow_last_registration:
  assumes reach: "reachable P h g" and key: "t \<in> fst ` set (task_deps g)"
  shows "distinct (map fst (task_names g))
         \<and> (\<exists>t'. map_of (task_names g) (name (h ! t)) = Some t'
                \<and> t' \<in> fst ` set (task_deps g) \<and> name (h ! t') = name (h ! t)
                \<and> (t' = t \<longleftrightarrow> \<not> shadowed h g t))"
proof -
  have inv: "invariant h g"
    by (rule reachable_invariant [OF reach])
  then have d: "distinct (map fst (task_names g))" and dk: "distinct (map fst (task_deps g))"
    and m: "map_of (task_names g) = last_named h (task_deps g)"
    by (simp_all add: invariant_def)
  from last_named_key [OF key] obtain t' where
    b: "last_named h (task_deps g) (name (h ! t)) = Some t'"
    by blast
  from last_named_SomeD [OF b] have k': "t' \<in> fst ` set (task_deps g)"
    and n': "name (h ! t') = name (h ! t)"
    by simp_all
  from last_named_self [OF dk key, of h] b have s: "t' = t \<longleftrightarrow> \<not> shadowed h g t"
    by (simp add: shadowed_def)
  from d b k' n' s show ?thesis
    by (simp add: m)
qed

theorem names_follow_last_registration_witness:
  "reachable example_pickle ghost_heap ghost_graph
   \<and> 0 \<in> fst ` set (task_deps ghost_graph)
   \<and> shadowed ghost_heap ghost_graph 0
   \<and> map_of (task_names ghost_graph) (name (ghost_heap ! 0)) = Some 1
   \<and> 1 \<in> fst ` set (task_deps ghost_graph)
   \<and> \<not> shadowed ghost_heap ghost_graph 1
   \<and> map_of (task_names ghost_graph) (name (ghost_heap ! 1)) = Some 1"
proof -
  have k0: "0 \<in> fst ` set (task_deps ghost_graph)" and k1: "1 \<in> fst ` set (task_deps ghost_graph)"
    by (simp_all add: ghost_graph_def)
  have s0: "shadowed ghost_heap ghost_graph 0" and s1: "\<not> shadowed ghost_heap ghost_graph 1"
    by (simp_all add: shadowed_def ghost_graph_def ghost_heap_def)
  from names_follow_last_registration [OF reachable_ghost k1] s1
  have "map_of (task_names ghost_graph) (name (ghost_heap ! 1)) = Some 1"
    by auto
  moreover have "map_of (task_names ghost_graph) (name (ghost_heap ! 0)) = Some 1"
    by (simp add: ghost_graph_def ghost_heap_def)
  ultimately show ?thesis
    using reachable_ghost k0 k1 s0 s1 by simp
qed

text \<open>The registry is in sync exactly when no name was registered twice.\<close>

lemma in_sync_iff:
  assumes "reachable P h g"
  shows "in_sync h g \<longleftrightarrow> (\<forall>t \<in> fst ` set (task_deps g). \<not> shadowed h g t)"
proof -
  have inv: "invariant h g"
    by (rule reachable_invariant [OF assms])
  then have dk: "distinct (map fst (task_deps g))"
    and m: "map_of (task_names g) = last_named h (task_deps g)"
    by (simp_all add: invariant_def)
  have "in_sync h g \<longleftrightarrow> (\<forall>t \<in> fst ` set (task_deps g). last_named h (task_deps g) (name (h ! t)) = Some t)"
    by (force simp: in_sync_def list_all_iff m image_iff)
  also have "\<dots> \<longleftrightarrow> (\<forall>t \<in> fst ` set (task_deps g). \<not> shadowed h g t)"
    using last_named_self [OF dk, of _ h] by (simp add: shadowed_def)
  finally show ?thesis .
qed

section \<open>Execution\<close>







section \<open>The queries where a name was registered again\<close>

text \<open>
  The Task that \<open>task_names\<close> holds under a name is the key of \<open>task_deps\<close> with that
  name that no later registration shadows.
\<close>

lemma bound_iff:
  assumes inv: "invariant h g"
  shows "map_of (task_names g) n = Some t
         \<longleftrightarrow> t \<in> fst ` set (task_deps g) \<and> name (h ! t) = n \<and> \<not> shadowed h g t"
proof -
  from inv have dk: "distinct (map fst (task_deps g))"
    and m: "map_of (task_names g) = last_named h (task_deps g)"
    by (simp_all add: invariant_def)
  show ?thesis
  proof
    assume b: "map_of (task_names g) n = Some t"
    from bound_task(1,2) [OF inv b] have k: "t \<in> fst ` set (task_deps g)" and nm: "name (h ! t) = n"
      by simp_all
    from last_named_self [OF dk k, of h] b have "\<not> shadowed h g t"
      by (simp add: shadowed_def m nm)
    with k nm show "t \<in> fst ` set (task_deps g) \<and> name (h ! t) = n \<and> \<not> shadowed h g t"
      by simp
  next
    assume r: "t \<in> fst ` set (task_deps g) \<and> name (h ! t) = n \<and> \<not> shadowed h g t"
    then have k: "t \<in> fst ` set (task_deps g)" and nm: "name (h ! t) = n"
      and cur: "\<not> shadowed h g t"
      by simp_all
    from last_named_self [OF dk k, of h] cur have "last_named h (task_deps g) (name (h ! t)) = Some t"
      by (simp add: shadowed_def)
    then show "map_of (task_names g) n = Some t"
      by (simp add: m nm)
  qed
qed

lemma deps_key: "map_of td t = Some deps \<Longrightarrow> t \<in> fst ` set td"
  by (force dest: map_of_SomeD simp: image_iff)

lemma current_bound:
  assumes "invariant h g" and "map_of (task_deps g) t = Some deps" and "\<not> shadowed h g t"
  shows "map_of (task_names g) (name (h ! t)) = Some t"
  using deps_key [OF assms(2)] assms(3) by (simp add: bound_iff [OF assms(1)])

lemma bound_current:
  assumes "invariant h g" and "map_of (task_names g) n = Some t"
  shows "name (h ! t) = n" and "\<not> shadowed h g t"
  using assms(2) by (simp_all add: bound_iff [OF assms(1)])

lemma names_registered:
  assumes inv: "invariant h g"
  shows "fst ` set (task_names g) = registered_names h g"
proof -
  from inv have m: "map_of (task_names g) = last_named h (task_deps g)"
    by (simp add: invariant_def)
  have "n \<in> fst ` set (task_names g) \<longleftrightarrow> n \<in> registered_names h g" for n
  proof -
    have "n \<in> fst ` set (task_names g) \<longleftrightarrow> map_of (task_names g) n \<noteq> None"
      by (simp add: map_of_eq_None_iff)
    also have "\<dots> \<longleftrightarrow> map_of (rev (named_keys h (task_deps g))) n \<noteq> None"
      by (simp add: m last_named_def)
    also have "\<dots> \<longleftrightarrow> n \<in> fst ` set (rev (named_keys h (task_deps g)))"
      by (simp only: map_of_eq_None_iff not_not)
    also have "\<dots> \<longleftrightarrow> n \<in> registered_names h g"
      by (force simp: named_keys_def registered_names_def image_iff)
    finally show ?thesis .
  qed
  then show ?thesis by blast
qed

subsection \<open>\<open>start_tasks\<close>\<close>

text \<open>
  After \<open>add\<close> was registered twice, the second time depending on the first Task: the
  Task registered first has an empty dependency list and the name \<open>add\<close>, and
  \<open>start_tasks\<close> returns no name.
\<close>

theorem start_tasks_misses_shadowed:
  "reachable example_pickle ghost_heap ghost_graph
   \<and> empty_deps_names ghost_heap ghost_graph = [''add'']
   \<and> start_tasks ghost_graph = Inr []"
  using reachable_ghost
  by (simp add: empty_deps_names_def start_tasks_def getitem_def ghost_heap_def ghost_graph_def)

text \<open>
  C5, amended. In every state the registry can reach, \<open>start_tasks\<close> returns, each
  once, exactly the names of the registered Tasks (the keys of \<open>task_deps\<close>) whose
  dependency list is empty and which no later registration of the same name shadows.
\<close>

theorem start_tasks_sources:
  assumes "reachable P h g"
  shows "\<exists>ns. start_tasks g = Inr ns \<and> distinct ns
           \<and> set ns = {name (h ! t) | t. map_of (task_deps g) t = Some [] \<and> \<not> shadowed h g t}"
proof -
  have inv: "invariant h g"
    by (rule reachable_invariant [OF assms])
  from start_tasks_by_name [OF assms] obtain ns where run: "start_tasks g = Inr ns"
    and dist: "distinct ns"
    and mem: "set ns = {n. \<exists>t. map_of (task_names g) n = Some t \<and> map_of (task_deps g) t = Some []}"
    by blast
  have "n \<in> set ns
          \<longleftrightarrow> n \<in> {name (h ! t) | t. map_of (task_deps g) t = Some [] \<and> \<not> shadowed h g t}" for n
  proof
    assume "n \<in> set ns"
    with mem obtain t where b: "map_of (task_names g) n = Some t"
      and d: "map_of (task_deps g) t = Some []"
      by blast
    from bound_current [OF inv b] d
    show "n \<in> {name (h ! t) | t. map_of (task_deps g) t = Some [] \<and> \<not> shadowed h g t}"
      by blast
  next
    assume "n \<in> {name (h ! t) | t. map_of (task_deps g) t = Some [] \<and> \<not> shadowed h g t}"
    then obtain t where n: "n = name (h ! t)" and d: "map_of (task_deps g) t = Some []"
      and c: "\<not> shadowed h g t"
      by blast
    from current_bound [OF inv d c] d n mem show "n \<in> set ns"
      by blast
  qed
  then have "set ns = {name (h ! t) | t. map_of (task_deps g) t = Some [] \<and> \<not> shadowed h g t}"
    by blast
  with run dist show ?thesis
    by blast
qed

theorem start_tasks_sources_witness:
  "reachable example_pickle scenario_heap scenario_graph
   \<and> start_tasks scenario_graph = Inr [''add'']
   \<and> {name (scenario_heap ! t) | t.
        map_of (task_deps scenario_graph) t = Some [] \<and> \<not> shadowed scenario_heap scenario_graph t}
       = {''add''}
   \<and> reachable example_pickle ghost_heap ghost_graph
   \<and> start_tasks ghost_graph = Inr []
   \<and> {name (ghost_heap ! t) | t.
        map_of (task_deps ghost_graph) t = Some [] \<and> \<not> shadowed ghost_heap ghost_graph t} = {}"
proof -
  have run: "start_tasks scenario_graph = Inr [''add'']"
    by (simp add: start_tasks_def scenario_graph_def getitem_def)
  have run': "start_tasks ghost_graph = Inr []"
    by (simp add: start_tasks_def ghost_graph_def getitem_def)
  from start_tasks_sources [OF reachable_scenario] run
  have a: "{name (scenario_heap ! t) | t.
        map_of (task_deps scenario_graph) t = Some [] \<and> \<not> shadowed scenario_heap scenario_graph t}
       = {''add''}"
    by auto
  from start_tasks_sources [OF reachable_ghost] run'
  have b: "{name (ghost_heap ! t) | t.
        map_of (task_deps ghost_graph) t = Some [] \<and> \<not> shadowed ghost_heap ghost_graph t} = {}"
    by auto
  from a b run run' reachable_scenario reachable_ghost show ?thesis
    by simp
qed

subsection \<open>\<open>end_tasks\<close>\<close>

lemma end_tasks_resquare: "end_tasks resquare_heap resquare_graph = Inr {''add'', ''square''}"
  by (simp add: end_tasks_def getitem_def resquare_heap_def resquare_graph_def)

text \<open>
  After \<open>add\<close>, \<open>square\<close> depending on \<open>add\<close>, and \<open>square\<close>
  again with no dependency: the registered names are \<open>add\<close> and \<open>square\<close>, the
  name \<open>add\<close> stands in a dependency list of \<open>task_deps\<close>, and
  \<open>end_tasks\<close> returns both names. After \<open>add\<close> was registered twice, the second
  time depending on the first Task: the second Task is in no dependency list, it has the name
  \<open>add\<close>, and \<open>end_tasks\<close> returns no name.
\<close>

theorem end_tasks_ignores_shadowed_edges:
  "reachable example_pickle resquare_heap resquare_graph
   \<and> registered_names resquare_heap resquare_graph = {''add'', ''square''}
   \<and> dependency_names resquare_heap resquare_graph = {''add''}
   \<and> end_tasks resquare_heap resquare_graph = Inr {''add'', ''square''}
   \<and> reachable example_pickle ghost_heap ghost_graph
   \<and> name (ghost_heap ! 1) = ''add''
   \<and> concat (map snd (task_deps ghost_graph)) = [0]
   \<and> end_tasks ghost_heap ghost_graph = Inr {}"
proof -
  have a: "end_tasks ghost_heap ghost_graph = Inr {}"
    by (simp add: end_tasks_def getitem_def ghost_heap_def ghost_graph_def)
  have b: "registered_names resquare_heap resquare_graph = {''add'', ''square''}"
    by (simp add: registered_names_def resquare_heap_def resquare_graph_def)
  have c: "dependency_names resquare_heap resquare_graph = {''add''}"
    by (simp add: dependency_names_def resquare_heap_def resquare_graph_def)
  have d: "name (ghost_heap ! 1) = ''add''" and e: "concat (map snd (task_deps ghost_graph)) = [0]"
    by (simp_all add: ghost_heap_def ghost_graph_def)
  from a b c d e end_tasks_resquare reachable_resquare reachable_ghost show ?thesis
    by (simp only: simp_thms)
qed

text \<open>
  C6, amended. In every state the registry can reach, \<open>end_tasks\<close> returns the set of
  all registered names minus the set of the names that stand in the dependency list of a
  registered Task which no later registration of the same name shadows: a name is returned
  exactly when a Task of that name is registered and no Task of that name is a dependency
  of a Task that is not shadowed.
\<close>

theorem end_tasks_sinks:
  assumes "reachable P h g"
  shows "\<exists>s. end_tasks h g = Inr s
           \<and> s = registered_names h g
                  - {name (h ! d) | d t deps.
                       map_of (task_deps g) t = Some deps \<and> \<not> shadowed h g t \<and> d \<in> set deps}
           \<and> (\<forall>n. n \<in> s \<longleftrightarrow>
                  (\<exists>t. t \<in> fst ` set (task_deps g) \<and> name (h ! t) = n)
                  \<and> \<not> (\<exists>t deps d. map_of (task_deps g) t = Some deps \<and> \<not> shadowed h g t
                         \<and> d \<in> set deps \<and> name (h ! d) = n))"
proof -
  have inv: "invariant h g"
    by (rule reachable_invariant [OF assms])
  let ?src = "{name (h ! d) | d t deps.
                 map_of (task_deps g) t = Some deps \<and> \<not> shadowed h g t \<and> d \<in> set deps}"
  have "x \<in> {name (h ! d) | d n t deps.
           map_of (task_names g) n = Some t \<and> map_of (task_deps g) t = Some deps \<and> d \<in> set deps}
          \<longleftrightarrow> x \<in> ?src" for x
  proof
    assume "x \<in> {name (h ! d) | d n t deps.
           map_of (task_names g) n = Some t \<and> map_of (task_deps g) t = Some deps \<and> d \<in> set deps}"
    then obtain d n t deps where x: "x = name (h ! d)" and b: "map_of (task_names g) n = Some t"
      and td: "map_of (task_deps g) t = Some deps" and m: "d \<in> set deps"
      by blast
    from bound_current(2) [OF inv b] x td m show "x \<in> ?src"
      by blast
  next
    assume "x \<in> ?src"
    then obtain d t deps where x: "x = name (h ! d)" and td: "map_of (task_deps g) t = Some deps"
      and c: "\<not> shadowed h g t" and m: "d \<in> set deps"
      by blast
    from current_bound [OF inv td c] x td m
    show "x \<in> {name (h ! d) | d n t deps.
           map_of (task_names g) n = Some t \<and> map_of (task_deps g) t = Some deps \<and> d \<in> set deps}"
      by blast
  qed
  then have "{name (h ! d) | d n t deps.
           map_of (task_names g) n = Some t \<and> map_of (task_deps g) t = Some deps \<and> d \<in> set deps}
          = ?src"
    by blast
  with end_tasks_eq [OF inv] have run: "end_tasks h g = Inr (registered_names h g - ?src)"
    by (simp add: names_registered [OF inv])
  have reg: "n \<in> registered_names h g \<longleftrightarrow> (\<exists>t. t \<in> fst ` set (task_deps g) \<and> name (h ! t) = n)"
    for n
    by (force simp: registered_names_def image_iff)
  have src: "n \<in> ?src \<longleftrightarrow> (\<exists>t deps d. map_of (task_deps g) t = Some deps \<and> \<not> shadowed h g t
                         \<and> d \<in> set deps \<and> name (h ! d) = n)" for n
    by blast
  have "n \<in> registered_names h g - ?src \<longleftrightarrow>
          (\<exists>t. t \<in> fst ` set (task_deps g) \<and> name (h ! t) = n)
          \<and> \<not> (\<exists>t deps d. map_of (task_deps g) t = Some deps \<and> \<not> shadowed h g t
                 \<and> d \<in> set deps \<and> name (h ! d) = n)" for n
    by (simp only: Diff_iff reg src)
  with run show ?thesis
    by blast
qed

theorem end_tasks_sinks_witness:
  "reachable example_pickle resquare_heap resquare_graph
   \<and> end_tasks resquare_heap resquare_graph = Inr {''add'', ''square''}
   \<and> registered_names resquare_heap resquare_graph
       - {name (resquare_heap ! d) | d t deps.
            map_of (task_deps resquare_graph) t = Some deps
            \<and> \<not> shadowed resquare_heap resquare_graph t \<and> d \<in> set deps}
     = {''add'', ''square''}"
proof -
  from end_tasks_sinks [OF reachable_resquare] obtain s where
    r: "end_tasks resquare_heap resquare_graph = Inr s"
    and s: "s = registered_names resquare_heap resquare_graph
       - {name (resquare_heap ! d) | d t deps.
            map_of (task_deps resquare_graph) t = Some deps
            \<and> \<not> shadowed resquare_heap resquare_graph t \<and> d \<in> set deps}"
    by blast
  from r end_tasks_resquare have "s = {''add'', ''square''}"
    by simp
  with s end_tasks_resquare reachable_resquare show ?thesis
    by simp
qed

subsection \<open>\<open>summary\<close>\<close>

text \<open>
  After \<open>add\<close> was registered twice, \<open>task_deps\<close> has two Tasks and
  \<open>summary\<close> one entry. After \<open>add\<close>, \<open>square\<close> depending on
  \<open>add\<close>, and \<open>square\<close> again: the second Task has the name \<open>square\<close>
  and depends on the Task named \<open>add\<close>, and the entry of \<open>square\<close> in
  \<open>summary\<close> is empty.
\<close>

theorem summary_drops_shadowed:
  "reachable example_pickle ghost_heap ghost_graph
   \<and> length (task_deps ghost_graph) = 2
   \<and> summary ghost_heap ghost_graph = [(''add'', [''add''])]
   \<and> reachable example_pickle resquare_heap resquare_graph
   \<and> map_of (task_deps resquare_graph) 1 = Some [0]
   \<and> name (resquare_heap ! 1) = ''square''
   \<and> name (resquare_heap ! 0) = ''add''
   \<and> summary resquare_heap resquare_graph = [(''add'', []), (''square'', [])]"
  using reachable_ghost reachable_resquare
  by (simp add: summary_def ghost_heap_def ghost_graph_def resquare_heap_def resquare_graph_def)

text \<open>
  C9, amended. In every state the registry can reach, \<open>summary\<close> has exactly one
  entry for each registered name; for every registered Task that no later registration of
  the same name shadows, the entry of its name is the list of the names of its dependencies,
  in the order they were declared; and the entry of a name is what \<open>dependencies\<close>
  returns for it. A shadowed Task and its dependency list are not in the result.
\<close>

theorem summary_dump:
  assumes "reachable P h g"
  shows "distinct (map fst (summary h g))
         \<and> fst ` set (summary h g) = registered_names h g
         \<and> (\<forall>t deps. map_of (task_deps g) t = Some deps \<and> \<not> shadowed h g t
               \<longrightarrow> map_of (summary h g) (name (h ! t)) = Some (map (\<lambda>dep. name (h ! dep)) deps))
         \<and> (\<forall>n. map_of (summary h g) n
                  = (case dependencies h g n of Inl e \<Rightarrow> None | Inr ds \<Rightarrow> Some ds))"
proof -
  have inv: "invariant h g"
    by (rule reachable_invariant [OF assms])
  from summary_by_name [OF assms] have dist: "distinct (map fst (summary h g))"
    and keys: "fst ` set (summary h g) = fst ` set (task_names g)"
    and look: "\<And>n. map_of (summary h g) n
                  = (case dependencies h g n of Inl e \<Rightarrow> None | Inr ds \<Rightarrow> Some ds)"
    by simp_all
  have cur: "map_of (summary h g) (name (h ! t)) = Some (map (\<lambda>dep. name (h ! dep)) deps)"
    if d: "map_of (task_deps g) t = Some deps" and c: "\<not> shadowed h g t" for t deps
  proof -
    from deps_key [OF d] c have "map_of (task_names g) (name (h ! t)) = Some t"
      by (simp add: bound_iff [OF inv])
    with d have "dependencies h g (name (h ! t)) = Inr (map (\<lambda>dep. name (h ! dep)) deps)"
      by (simp add: dependencies_def getitem_def)
    then show ?thesis
      by (simp add: look)
  qed
  from dist keys cur look show ?thesis
    by (simp add: names_registered [OF inv])
qed

theorem summary_dump_witness:
  "reachable example_pickle resquare_heap resquare_graph
   \<and> summary resquare_heap resquare_graph = [(''add'', []), (''square'', [])]
   \<and> map_of (task_deps resquare_graph) 2 = Some []
   \<and> \<not> shadowed resquare_heap resquare_graph 2
   \<and> shadowed resquare_heap resquare_graph 1
   \<and> map_of (summary resquare_heap resquare_graph) (name (resquare_heap ! 2)) = Some []"
proof -
  have d: "map_of (task_deps resquare_graph) 2 = Some []"
    by (simp add: resquare_graph_def)
  have c: "\<not> shadowed resquare_heap resquare_graph 2" and c': "shadowed resquare_heap resquare_graph 1"
    by (simp_all add: shadowed_def resquare_heap_def resquare_graph_def)
  have run: "summary resquare_heap resquare_graph = [(''add'', []), (''square'', [])]"
    by (simp add: summary_def resquare_heap_def resquare_graph_def)
  from summary_dump [OF reachable_resquare] d c
  have "map_of (summary resquare_heap resquare_graph) (name (resquare_heap ! 2))
          = Some (map (\<lambda>dep. name (resquare_heap ! dep)) [])"
    by blast
  with run d c c' reachable_resquare show ?thesis
    by simp
qed

subsection \<open>A task alone, again\<close>

text \<open>
  After \<open>add\<close> and \<open>square\<close> with no dependency and \<open>add\<close> again
  depending on \<open>square\<close>: the Task registered first has an empty dependency list and
  the name \<open>add\<close>, the only name in a dependency list is \<open>square\<close>, and
  \<open>start_tasks\<close> returns \<open>square\<close> alone.
\<close>

theorem shadowed_task_not_started:
  "reachable example_pickle readd_heap readd_graph
   \<and> map_of (task_deps readd_graph) 0 = Some []
   \<and> name (readd_heap ! 0) = ''add''
   \<and> dependency_names readd_heap readd_graph = {''square''}
   \<and> start_tasks readd_graph = Inr [''square'']"
  using reachable_readd
  by (simp add: dependency_names_def start_tasks_def getitem_def readd_heap_def readd_graph_def)

text \<open>
  C10, amended. In every state the registry can reach, a registered Task that no later
  registration of the same name shadows, whose dependency list is empty, and whose name
  stands in the dependency list of no other registered Task that is not shadowed, has its
  name in the result of \<open>start_tasks\<close> and in the result of \<open>end_tasks\<close>.
\<close>

theorem isolated_task:
  assumes reach: "reachable P h g"
    and nodeps: "map_of (task_deps g) t = Some []"
    and cur: "\<not> shadowed h g t"
    and unused: "\<And>t' deps. t' \<noteq> t \<Longrightarrow> map_of (task_deps g) t' = Some deps
                   \<Longrightarrow> \<not> shadowed h g t' \<Longrightarrow> name (h ! t) \<notin> (\<lambda>d. name (h ! d)) ` set deps"
  shows "\<exists>ns s. start_tasks g = Inr ns \<and> end_tasks h g = Inr s
           \<and> name (h ! t) \<in> set ns \<and> name (h ! t) \<in> s"
proof -
  have inv: "invariant h g"
    by (rule reachable_invariant [OF reach])
  from deps_key [OF nodeps] cur have bound: "map_of (task_names g) (name (h ! t)) = Some t"
    by (simp add: bound_iff [OF inv])
  show ?thesis
  proof (rule isolated_by_name [OF reach bound nodeps])
    fix n' t' deps
    assume b': "map_of (task_names g) n' = Some t'" and ne: "t' \<noteq> t"
      and d': "map_of (task_deps g) t' = Some deps"
    from b' have "\<not> shadowed h g t'"
      by (simp add: bound_iff [OF inv])
    from unused [OF ne d' this] show "name (h ! t) \<notin> (\<lambda>d. name (h ! d)) ` set deps" .
  qed
qed

theorem isolated_task_witness:
  "reachable example_pickle resquare_heap resquare_graph
   \<and> map_of (task_deps resquare_graph) 2 = Some []
   \<and> \<not> shadowed resquare_heap resquare_graph 2
   \<and> name (resquare_heap ! 2) = ''square''
   \<and> start_tasks resquare_graph = Inr [''add'', ''square'']
   \<and> end_tasks resquare_heap resquare_graph = Inr {''add'', ''square''}"
proof -
  have d: "map_of (task_deps resquare_graph) 2 = Some []"
    by (simp add: resquare_graph_def)
  have c: "\<not> shadowed resquare_heap resquare_graph 2"
    by (simp add: shadowed_def resquare_heap_def resquare_graph_def)
  have n: "name (resquare_heap ! 2) = ''square''"
    by (simp add: resquare_heap_def)
  have "\<exists>ns s. start_tasks resquare_graph = Inr ns \<and> end_tasks resquare_heap resquare_graph = Inr s
           \<and> name (resquare_heap ! 2) \<in> set ns \<and> name (resquare_heap ! 2) \<in> s"
  proof (rule isolated_task [OF reachable_resquare d c])
    fix t' deps
    assume "t' \<noteq> 2" and "map_of (task_deps resquare_graph) t' = Some deps"
      and "\<not> shadowed resquare_heap resquare_graph t'"
    then show "name (resquare_heap ! 2) \<notin> (\<lambda>d. name (resquare_heap ! d)) ` set deps"
      by (auto simp: resquare_graph_def resquare_heap_def shadowed_def split: if_splits)
  qed
  moreover have "start_tasks resquare_graph = Inr [''add'', ''square'']"
    by (simp add: start_tasks_def getitem_def resquare_graph_def)
  moreover note end_tasks_resquare
  ultimately show ?thesis
    using reachable_resquare d c n by simp
qed

end
